theory Spec2Isabelle
  imports Complex_Main "HOL-Library.Word"
begin

unbundle bit_operations_syntax

section \<open>Double-precision costs\<close>

text \<open>
  Path costs, edge costs, heuristic values and the cost cutoff are \<^verbatim>\<open>double\<close> in the
  source: IEEE 754 binary64 numbers, added with rounding to the nearest number, ties to
  the one with an even significand. A \<^verbatim>\<open>double\<close> is a real number here, or one of the two
  infinities, or a NaN. The two zeros are one value, and so are the NaNs: the code adds,
  subtracts and compares, which tells neither of them apart.
\<close>

datatype double = Finite real | PlusInf | MinusInf | NaN

text \<open>The position of the leading bit of a natural number; 0 for 0.\<close>

fun ilog2 :: "nat \<Rightarrow> nat" where
  "ilog2 n = (if n < 2 then 0 else Suc (ilog2 (n div 2)))"

declare ilog2.simps [simp del]

text \<open>The integer nearest to a real number; of two nearest integers, the even one.\<close>

definition round_even :: "real \<Rightarrow> int" where
  "round_even q =
     (let n = \<lfloor>q\<rfloor> in
      if q - of_int n < 1 / 2 then n
      else if 1 / 2 < q - of_int n then n + 1
      else if even n then n else n + 1)"

text \<open>
  Rounding of a magnitude counted in units of \<open>2\<^sup>-\<^sup>1\<^sup>0\<^sup>7\<^sup>4\<close>, the smallest positive
  \<^verbatim>\<open>double\<close>. A magnitude below \<open>2\<^sup>5\<^sup>3\<close> units (the subnormal numbers and the first
  binade of the normal ones) is rounded to a whole number of units; a magnitude whose
  leading bit is at position \<open>e\<close> is rounded to a multiple of \<open>2\<^sup>e\<^sup>-\<^sup>5\<^sup>2\<close> units, which
  leaves a significand of 53 bits.
\<close>

definition round_scaled :: "real \<Rightarrow> nat" where
  "round_scaled N =
     (let k = ilog2 (nat \<lfloor>N\<rfloor>) - 52
      in nat (round_even (N / 2 ^ k)) * 2 ^ k)"

text \<open>
  The \<^verbatim>\<open>double\<close> nearest to a real number. A result of magnitude \<open>2\<^sup>1\<^sup>0\<^sup>2\<^sup>4\<close>
  (\<open>2\<^sup>2\<^sup>0\<^sup>9\<^sup>8\<close> units) or more is an infinity.
\<close>

definition round_double :: "real \<Rightarrow> double" where
  "round_double x =
     (let m = round_scaled (\<bar>x\<bar> * 2 ^ 1074)
      in if 2 ^ 2098 \<le> m then (if x < 0 then MinusInf else PlusInf)
         else Finite (sgn x * real m / 2 ^ 1074))"

text \<open>Addition of two \<^verbatim>\<open>double\<close>s, \<^verbatim>\<open>a + b\<close>.\<close>

fun dadd :: "double \<Rightarrow> double \<Rightarrow> double" where
  "dadd (Finite x) (Finite y) = round_double (x + y)"
| "dadd NaN b = NaN"
| "dadd a NaN = NaN"
| "dadd PlusInf MinusInf = NaN"
| "dadd MinusInf PlusInf = NaN"
| "dadd PlusInf b = PlusInf"
| "dadd a PlusInf = PlusInf"
| "dadd MinusInf b = MinusInf"
| "dadd a MinusInf = MinusInf"

text \<open>Negation and subtraction, \<^verbatim>\<open>a - b\<close>.\<close>

fun dneg :: "double \<Rightarrow> double" where
  "dneg (Finite x) = Finite (- x)"
| "dneg PlusInf = MinusInf"
| "dneg MinusInf = PlusInf"
| "dneg NaN = NaN"

definition dsub :: "double \<Rightarrow> double \<Rightarrow> double" where
  "dsub a b = dadd a (dneg b)"

text \<open>The comparisons \<^verbatim>\<open>a < b\<close> and \<^verbatim>\<open>a == b\<close>; both are false when a NaN is compared.\<close>

fun dless :: "double \<Rightarrow> double \<Rightarrow> bool" where
  "dless (Finite x) (Finite y) = (x < y)"
| "dless NaN b = False"
| "dless a NaN = False"
| "dless a MinusInf = False"
| "dless MinusInf b = True"
| "dless PlusInf b = False"
| "dless a PlusInf = True"

definition deq :: "double \<Rightarrow> double \<Rightarrow> bool" where
  "deq a b = (a \<noteq> NaN \<and> a = b)"

text \<open>\<^verbatim>\<open>a <= b\<close>, used in statements.\<close>

definition dle :: "double \<Rightarrow> double \<Rightarrow> bool" where
  "dle a b = (dless a b \<or> deq a b)"

section \<open>First-move labels of the down-DFS expansion policy\<close>

text \<open>
  \<^verbatim>\<open>fch_down_dfs_expansion_policy::compute_down_dijkstra_postorder\<close> declares a local
  struct \<^verbatim>\<open>fm_label\<close> holding \<^verbatim>\<open>uint8_t lab_[FM_BYTES]\<close> with \<^verbatim>\<open>FM_BYTES = 32\<close>.
  The array is a list of bytes; a value of the struct always has exactly
  \<open>FM_BYTES\<close> entries, which theorems state as \<open>length l = FM_BYTES\<close>.
  A write past the end of the array is undefined behaviour in the source; the model
  makes it the value \<open>None\<close>.
\<close>

type_synonym fm_label = "8 word list"

definition FM_BYTES :: nat where
  "FM_BYTES = 32"

text \<open>The constructor: every byte is 0.\<close>

definition fm_label_init :: fm_label where
  "fm_label_init = replicate FM_BYTES 0"

text \<open>
  \<^verbatim>\<open>add(move_id)\<close>: \<^verbatim>\<open>lab_[move_id / 8] |= (1 << (move_id % 8))\<close>, with no bounds check
  of its own.
\<close>

definition fm_add :: "nat \<Rightarrow> fm_label \<Rightarrow> fm_label option" where
  "fm_add move_id l =
     (let fm_byte = move_id div 8;
          fm_bit = move_id mod 8
      in if fm_byte < length l
         then Some (l[fm_byte := (l ! fm_byte) OR (push_bit fm_bit 1)])
         else None)"

text \<open>\<^verbatim>\<open>cup(other)\<close>: the loop \<^verbatim>\<open>for i < FM_BYTES: lab_[i] |= other.lab_[i]\<close>.\<close>

definition fm_cup :: "fm_label \<Rightarrow> fm_label \<Rightarrow> fm_label" where
  "fm_cup l other = fold (\<lambda>i acc. acc[i := (acc ! i) OR (other ! i)]) [0..<FM_BYTES] l"

text \<open>
  \<^verbatim>\<open>intersect(other)\<close>: a byte accumulates \<^verbatim>\<open>lab_[i] & other.lab_[i]\<close> over all
  \<open>FM_BYTES\<close> bytes and is returned as a \<^verbatim>\<open>bool\<close> (non-zero is true).
\<close>

definition fm_intersect :: "fm_label \<Rightarrow> fm_label \<Rightarrow> bool" where
  "fm_intersect l other =
     (fold (\<lambda>i (retval :: 8 word). retval OR ((l ! i) AND (other ! i))) [0..<FM_BYTES] 0 \<noteq> 0)"

text \<open>The bit of a label that stands for move \<open>j\<close> (a reading of the array, used in statements only).\<close>

definition fm_test :: "fm_label \<Rightarrow> nat \<Rightarrow> bool" where
  "fm_test l j = bit (l ! (j div 8)) (j mod 8)"

section \<open>Graph, search nodes and failures\<close>

text \<open>
  The graph adapter (\<^verbatim>\<open>planar_graph\<close>) is consumed through its interface only: a node's
  outgoing edges are an array of edges, an edge carries the id of its head
  (\<^verbatim>\<open>node_id_\<close>) and its weight (\<^verbatim>\<open>wt_\<close>). A graph is the list of its nodes' edge arrays,
  indexed by internal node id. (A name cannot end in an underscore here: the fields are
  \<open>node_id\<close> and \<open>wt\<close>, and the policy's members \<^verbatim>\<open>g_\<close>, \<^verbatim>\<open>rank_\<close> and
  \<^verbatim>\<open>down_heads_\<close> are \<open>policy_g\<close>, \<open>policy_rank\<close> and \<open>policy_down_heads\<close>.) The weight is the
  \<^verbatim>\<open>double\<close> that \<^verbatim>\<open>expand\<close> passes to \<^verbatim>\<open>add_neighbour\<close>.
\<close>

record edge =
  node_id :: nat
  wt :: double

type_synonym graph = "edge list list"

text \<open>
  Modelled from the spec: \<^verbatim>\<open>search_node.h\<close> is missing. A search node holds its id, its
  best g-cost, its f-cost, a reference to its best-known predecessor, an expanded flag and
  the stamp of the search that touched it last; the fields bear the names of the
  accessors the source calls. A \<^verbatim>\<open>search_node*\<close> is the id of the node it points to, the
  null pointer is \<open>None\<close>.
\<close>

record search_node =
  get_id :: nat
  get_g :: double
  get_f :: double
  get_parent :: "nat option"
  get_expanded :: bool
  get_search_id :: nat

text \<open>
  What the source does outside its defined behaviour: \<^verbatim>\<open>std::vector::at\<close> throws
  \<^verbatim>\<open>std::out_of_range\<close>; a write past the end of a raw array, an iterator moved past
  the end and a dereferenced null pointer are undefined behaviour.
\<close>

datatype fault = out_of_range | undefined_behaviour

section \<open>The rank-biased (down-DFS) expansion policy\<close>

text \<open>
  The members \<^verbatim>\<open>fch_down_dfs_expansion_policy::expand\<close> reads: the graph, the rank
  array and, per node, the number of its up edges (\<^verbatim>\<open>down_heads_\<close>: the edges were sorted
  up before down at construction).
\<close>

record fch_down_dfs_expansion_policy =
  policy_g :: graph
  policy_rank :: "nat list"
  policy_down_heads :: "nat list"

text \<open>The test of line 57: \<^verbatim>\<open>!pn || (current_rank > get_rank(pn->get_id()))\<close>.\<close>

definition up_travel :: "nat list \<Rightarrow> search_node \<Rightarrow> bool" where
  "up_travel rank current =
     (case get_parent current of
        None \<Rightarrow> True
      | Some pn \<Rightarrow> rank ! pn < rank ! get_id current)"

text \<open>
  The loop of the down branch (lines 70 to 78) over the edges from \<^verbatim>\<open>begin\<close> on;
  \<open>idx\<close> is \<^verbatim>\<open>it - begin\<close>, the index the filter is asked about.
\<close>

fun down_neighbours :: "(nat \<Rightarrow> nat \<Rightarrow> bool) \<Rightarrow> nat \<Rightarrow> nat \<Rightarrow> edge list \<Rightarrow> (nat \<times> double) list" where
  "down_neighbours filter_fn current_id idx [] = []"
| "down_neighbours filter_fn current_id idx (e # es) =
     (if \<not> filter_fn current_id idx
      then (node_id e, wt e) # down_neighbours filter_fn current_id (Suc idx) es
      else down_neighbours filter_fn current_id (Suc idx) es)"

text \<open>
  \<^verbatim>\<open>expand(current, problem)\<close>. The result is the list of neighbours handed to
  \<^verbatim>\<open>add_neighbour\<close>, in order: the id of the node generated and the edge's weight.
  The label filter \<^verbatim>\<open>filter(node_id, edge_idx)\<close> is declared in the policy's header and
  is a parameter here. \<^verbatim>\<open>get_rank\<close> reads the rank vector with \<^verbatim>\<open>at\<close>.
\<close>

definition expand ::
  "fch_down_dfs_expansion_policy \<Rightarrow> (nat \<Rightarrow> nat \<Rightarrow> bool) \<Rightarrow> search_node \<Rightarrow> fault + (nat \<times> double) list" where
  "expand p filter_fn current =
     (let current_id = get_id current in
      if \<not> current_id < length (policy_rank p) then Inl out_of_range
      else if \<not> current_id < length (policy_g p) then Inl undefined_behaviour
      else if (case get_parent current of None \<Rightarrow> False | Some pn \<Rightarrow> \<not> pn < length (policy_rank p))
        then Inl out_of_range
      else
        let outgoing = policy_g p ! current_id in
        if up_travel (policy_rank p) current
        then Inr (map (\<lambda>e. (node_id e, wt e)) outgoing)
        else if \<not> current_id < length (policy_down_heads p) then Inl undefined_behaviour
        else if length outgoing < policy_down_heads p ! current_id then Inl undefined_behaviour
        else Inr (down_neighbours filter_fn current_id 0
                    (drop (policy_down_heads p ! current_id) outgoing)))"

section \<open>The first-move hooks of the label builders\<close>



subsection \<open>Bitsets and nodes used in examples\<close>








section \<open>The best-first search engine\<close>

text \<open>
  \<^verbatim>\<open>flexible_astar<H, E, F>\<close> is a template over a heuristic, an expansion policy and a
  node filter. The three are parameters here, read through the member functions
  \<^verbatim>\<open>search\<close> calls. The headers of \<^verbatim>\<open>search_node\<close>, \<^verbatim>\<open>problem_instance\<close>, \<^verbatim>\<open>pqueue\<close> and
  of the policies' base class are outside the sources; what \<^verbatim>\<open>search\<close> uses of them is
  modelled below, each under its own heading.
\<close>

subsection \<open>The query\<close>

text \<open>
  Modelled from the spec: \<^verbatim>\<open>problem_instance.h\<close> is missing. A query request holds a
  start id and a target id (\<^verbatim>\<open>INF\<close> for no target); \<^verbatim>\<open>search\<close> stores the id of the
  search in it and replaces the two ids by the ids of the nodes generated for them.
\<close>

record problem_instance =
  get_start_id :: nat
  get_target_id :: nat
  instance_search_id :: nat

subsection \<open>Search nodes\<close>

text \<open>
  Modelled from the spec: \<^verbatim>\<open>search_node::init\<close> is missing. A node generated for the
  first time in a search is (re)initialised: it gets the search's stamp, its parent, its g
  and its f, and is not expanded.
\<close>

definition init :: "nat \<Rightarrow> nat option \<Rightarrow> double \<Rightarrow> double \<Rightarrow> search_node \<Rightarrow> search_node" where
  "init sid parent g f n =
     n\<lparr>get_search_id := sid, get_parent := parent, get_g := g, get_f := f, get_expanded := False\<rparr>"

text \<open>
  Modelled from the spec: \<^verbatim>\<open>search_node::relax\<close> is missing. A node of the frontier
  reached at a strictly better cost gets the new g and the new parent; its f, derived
  from g, moves by the same amount.
\<close>

definition relax :: "double \<Rightarrow> nat \<Rightarrow> search_node \<Rightarrow> search_node" where
  "relax g parent n =
     n\<lparr>get_f := dadd (dsub (get_f n) (get_g n)) g, get_g := g, get_parent := Some parent\<rparr>"

text \<open>
  Modelled from the spec: \<^verbatim>\<open>search_node::set_expanded\<close> is missing. It sets the expanded
  flag of the node.
\<close>

definition set_expanded :: "bool \<Rightarrow> search_node \<Rightarrow> search_node" where
  "set_expanded b n = n\<lparr>get_expanded := b\<rparr>"

text \<open>
  Modelled from the spec: the node pool of the expansion policy is missing. A search node
  is materialised lazily and counts as never seen until the current search touches it:
  such a node is not expanded and has no parent. Its g and f are not read before
  \<^verbatim>\<open>init\<close> has written them.
\<close>

definition fresh_node :: "nat \<Rightarrow> search_node" where
  "fresh_node i = \<lparr>get_id = i, get_g = Finite 0, get_f = Finite 0, get_parent = None,
                   get_expanded = False,
                   get_search_id = 0\<rparr>"

text \<open>
  Modelled from the spec: the node pool of the expansion policy is missing. The pool holds
  one search node per node id; \<^verbatim>\<open>cleanup()\<close> clears it before every search, after which
  every node is as never seen.
\<close>

definition fresh_pool :: "nat \<Rightarrow> search_node list" where
  "fresh_pool n = map fresh_node [0..<n]"

subsection \<open>The frontier\<close>

text \<open>
  Modelled from the spec: \<^verbatim>\<open>pqueue.h\<close> is missing. The frontier is an opaque min-f
  container with insert, extract-minimum, decrease-key and a membership test; it always
  yields an element of minimum f, ties broken in implementation order. Here it is the
  list of the ids it holds in insertion order, keys are read from the pool (so
  decrease-key changes nothing in the list), and among equal keys the element inserted
  first is the minimum. \<open>min_f\<close> scans the list for it: \<open>best\<close>, the minimum so far,
  gives way only to an element of strictly smaller f.
\<close>

fun min_f :: "search_node list \<Rightarrow> nat \<Rightarrow> nat list \<Rightarrow> nat" where
  "min_f pool best [] = best"
| "min_f pool best (i # is) =
     min_f pool (if dless (get_f (pool ! i)) (get_f (pool ! best)) then i else best) is"

text \<open>
  Modelled from the spec: \<^verbatim>\<open>pqueue::peek\<close> is missing. The minimum of the frontier, which
  is not empty when \<^verbatim>\<open>search\<close> asks for it; insertion appends to the list, extraction
  removes the minimum from it.
\<close>

definition peek :: "search_node list \<Rightarrow> nat list \<Rightarrow> nat" where
  "peek pool ol = min_f pool (hd ol) (tl ol)"

subsection \<open>The engine and its state\<close>

text \<open>
  The members of the engine that \<^verbatim>\<open>search\<close> reads. The expansion policy \<^verbatim>\<open>E\<close> is seen
  through \<^verbatim>\<open>generate_start_node\<close>, \<^verbatim>\<open>generate_target_node\<close> (a null pointer is \<open>None\<close>),
  \<^verbatim>\<open>expand\<close> followed by the iteration \<^verbatim>\<open>first\<close>/\<^verbatim>\<open>next\<close> over the neighbours it produced
  (each a pointer into the pool, that is a node id, and a cost), \<^verbatim>\<open>get_xy\<close> and the size of
  its node pool. The two hooks observe a node; what they record is threaded as a value of
  type \<open>'h\<close>. \<^verbatim>\<open>warthog::INF\<close>, from a missing header, is a field as well.
\<close>

record 'h flexible_astar =
  heuristic_h :: "int \<Rightarrow> int \<Rightarrow> int \<Rightarrow> int \<Rightarrow> double"
  generate_start_node :: "problem_instance \<Rightarrow> fault + nat option"
  generate_target_node :: "problem_instance \<Rightarrow> fault + nat option"
  expander_expand :: "search_node \<Rightarrow> problem_instance \<Rightarrow> fault + (nat \<times> double) list"
  get_xy :: "nat \<Rightarrow> int \<times> int"
  get_nodes_pool_size :: nat
  node_filter :: "(search_node \<Rightarrow> bool) option"
  cost_cutoff :: double
  exp_cutoff :: nat
  on_relax_fn :: "search_node \<Rightarrow> 'h \<Rightarrow> 'h"
  on_norelax_fn :: "search_node \<Rightarrow> search_node \<Rightarrow> double \<Rightarrow> 'h \<Rightarrow> 'h"
  searchid :: nat
  warthog_INF :: nat

record 'h search_state =
  pool :: "search_node list"
  open_list :: "nat list"
  nodes_expanded :: nat
  nodes_generated :: nat
  nodes_touched :: nat
  heap_ops :: nat
  hook_state :: 'h

text \<open>
  The body of the loop over the neighbours (lines 321 to 422) for one neighbour \<open>n\<close> with
  edge cost \<open>cost_to_n\<close>; \<open>current\<close> is the id of the node being expanded. A neighbour
  outside the pool is not a node the policy can have generated.
\<close>

definition process_neighbour ::
  "'h flexible_astar \<Rightarrow> problem_instance \<Rightarrow> int \<Rightarrow> int \<Rightarrow> nat \<Rightarrow> nat \<times> double
   \<Rightarrow> 'h search_state \<Rightarrow> fault + 'h search_state" where
  "process_neighbour a inst gx gy current nc s0 =
     (let n = fst nc; cost_to_n = snd nc in
      if \<not> n < length (pool s0) then Inl undefined_behaviour
      else
        let s = s0\<lparr>nodes_touched := nodes_touched s0 + 1\<rparr> in
        if get_expanded (pool s ! n) then Inr s
        else if n \<in> set (open_list s) then
          (let gval = dadd (get_g (pool s ! current)) cost_to_n in
           if dless gval (get_g (pool s ! n)) then
             (let nd = relax gval current (pool s ! n) in
              Inr (s\<lparr>pool := (pool s)[n := nd],
                     heap_ops := heap_ops s + 1,
                     hook_state := on_relax_fn a nd (hook_state s)\<rparr>))
           else
             Inr (s\<lparr>hook_state :=
                       on_norelax_fn a (pool s ! n) (pool s ! current) cost_to_n (hook_state s)\<rparr>))
        else
          (let gval = dadd (get_g (pool s ! current)) cost_to_n;
               nx = fst (get_xy a n);
               ny = snd (get_xy a n);
               nd = init (instance_search_id inst) (Some current) gval
                      (dadd gval (heuristic_h a nx ny gx gy)) (pool s ! n);
               s1 = s\<lparr>pool := (pool s)[n := nd]\<rparr>
           in if (case node_filter a of None \<Rightarrow> False | Some flt \<Rightarrow> flt nd) then Inr s1
              else Inr (s1\<lparr>open_list := open_list s1 @ [n],
                            nodes_generated := nodes_generated s1 + 1,
                            heap_ops := heap_ops s1 + 1,
                            hook_state := on_relax_fn a nd (hook_state s1)\<rparr>)))"

fun process_neighbours ::
  "'h flexible_astar \<Rightarrow> problem_instance \<Rightarrow> int \<Rightarrow> int \<Rightarrow> nat \<Rightarrow> (nat \<times> double) list
   \<Rightarrow> 'h search_state \<Rightarrow> fault + 'h search_state" where
  "process_neighbours a inst gx gy current [] s = Inr s"
| "process_neighbours a inst gx gy current (nc # ncs) s =
     (case process_neighbour a inst gx gy current nc s of
        Inl e \<Rightarrow> Inl e
      | Inr s' \<Rightarrow> process_neighbours a inst gx gy current ncs s')"

text \<open>
  Lines 296 to 313: the minimum is popped, counted and marked expanded; then the policy
  expands it.
\<close>

definition pop_current :: "'h search_state \<Rightarrow> nat \<times> 'h search_state" where
  "pop_current s =
     (let current = peek (pool s) (open_list s) in
      (current,
       s\<lparr>open_list := remove1 current (open_list s),
         heap_ops := heap_ops s + 1,
         nodes_expanded := nodes_expanded s + 1,
         pool := (pool s)[current := set_expanded True (pool s ! current)]\<rparr>))"

definition expand_current ::
  "'h flexible_astar \<Rightarrow> problem_instance \<Rightarrow> int \<Rightarrow> int \<Rightarrow> 'h search_state
   \<Rightarrow> fault + 'h search_state" where
  "expand_current a inst gx gy s =
     (let current = fst (pop_current s);
          s1 = snd (pop_current s)
      in case expander_expand a (pool s1 ! current) inst of
           Inl e \<Rightarrow> Inl e
         | Inr ncs \<Rightarrow> process_neighbours a inst gx gy current ncs s1)"

text \<open>
  The measure that makes the main loop end: every node of the pool is pushed at most once
  after it was seen unexpanded outside the frontier, and popped at most once per push.
\<close>

definition unseen :: "'h search_state \<Rightarrow> nat set" where
  "unseen s = {i. i < length (pool s) \<and> \<not> get_expanded (pool s ! i) \<and> i \<notin> set (open_list s)}"

definition work_left :: "'h search_state \<Rightarrow> nat" where
  "work_left s = 2 * card (unseen s) + length (open_list s)"

lemma finite_unseen: "finite (unseen s)"
  by (simp add: unseen_def)

lemma min_f_in: "min_f p best ol \<in> insert best (set ol)"
  by (induction ol arbitrary: best) auto

lemma peek_in_open: "ol \<noteq> [] \<Longrightarrow> peek p ol \<in> set ol"
  using min_f_in [of p "hd ol" "tl ol"] by (cases ol) (simp_all add: peek_def)

lemma unseen_pop_current:
  assumes "open_list s \<noteq> []"
  shows "unseen (snd (pop_current s)) = unseen s"
proof -
  let ?c = "peek (pool s) (open_list s)"
  have c: "?c \<in> set (open_list s)"
    using assms by (rule peek_in_open)
  have "i \<in> unseen (snd (pop_current s)) \<longleftrightarrow> i \<in> unseen s" for i
  proof (cases "i = ?c")
    case True
    with c show ?thesis
      by (auto simp: unseen_def pop_current_def Let_def set_expanded_def)
  next
    case False
    then show ?thesis
      by (auto simp: unseen_def pop_current_def Let_def in_set_remove1)
  qed
  then show ?thesis by blast
qed

lemma work_left_pop_current:
  assumes "open_list s \<noteq> []"
  shows "work_left (snd (pop_current s)) < work_left s"
proof -
  have "peek (pool s) (open_list s) \<in> set (open_list s)"
    using assms by (rule peek_in_open)
  then have "length (open_list (snd (pop_current s))) < length (open_list s)"
    using assms by (simp add: pop_current_def Let_def length_remove1)
  then show ?thesis
    unfolding work_left_def unseen_pop_current [OF assms] by simp
qed

lemma process_neighbour_frontier:
  assumes "process_neighbour a inst gx gy current nc s = Inr s'"
  shows "length (pool s') = length (pool s)"
    and "get_expanded (pool s' ! i) = get_expanded (pool s ! i)"
    and "open_list s' = open_list s
         \<or> (open_list s' = open_list s @ [fst nc] \<and> fst nc \<in> unseen s)"
  using assms
  by (auto simp: process_neighbour_def Let_def init_def relax_def unseen_def nth_list_update
           split: if_splits option.splits)

lemma work_left_process_neighbour:
  assumes "process_neighbour a inst gx gy current nc s = Inr s'"
  shows "work_left s' \<le> work_left s"
proof -
  note f = process_neighbour_frontier [OF assms]
  from f(3) show ?thesis
  proof
    assume "open_list s' = open_list s"
    with f(1,2) have "unseen s' = unseen s"
      by (simp add: unseen_def)
    with \<open>open_list s' = open_list s\<close> show ?thesis
      by (simp add: work_left_def)
  next
    assume push: "open_list s' = open_list s @ [fst nc] \<and> fst nc \<in> unseen s"
    with f(1,2) have "unseen s' = unseen s - {fst nc}"
      by (auto simp: unseen_def)
    with push have "card (unseen s') = card (unseen s) - 1" "0 < card (unseen s)"
      using finite_unseen [of s] by (auto simp: card_gt_0_iff)
    with push show ?thesis by (simp add: work_left_def)
  qed
qed

lemma work_left_process_neighbours:
  "process_neighbours a inst gx gy current ncs s = Inr s' \<Longrightarrow> work_left s' \<le> work_left s"
proof (induction ncs arbitrary: s)
  case Nil
  then show ?case by simp
next
  case (Cons nc ncs)
  then obtain s1 where 1: "process_neighbour a inst gx gy current nc s = Inr s1"
    and 2: "process_neighbours a inst gx gy current ncs s1 = Inr s'"
    by (auto split: sum.splits)
  from work_left_process_neighbour [OF 1] Cons.IH [OF 2] show ?case by simp
qed

lemma work_left_expand_current:
  assumes "open_list s \<noteq> []" and "expand_current a inst gx gy s = Inr s'"
  shows "work_left s' < work_left s"
proof -
  from assms(2) obtain ncs where
    "process_neighbours a inst gx gy (fst (pop_current s)) ncs (snd (pop_current s)) = Inr s'"
    by (auto simp: expand_current_def Let_def split: sum.splits)
  from work_left_process_neighbours [OF this] work_left_pop_current [OF assms(1)]
  show ?thesis by simp
qed

text \<open>
  Why the search stopped. The source returns only the pointer \<^verbatim>\<open>target\<close>; the reason
  is recorded beside it here, one constructor per way out of \<^verbatim>\<open>search\<close>: the early
  return of line 241, the loop condition of line 271 and the three \<^verbatim>\<open>break\<close>s of lines
  288, 293 and 294.
\<close>

datatype loop_exit =
  no_start_id
  | frontier_exhausted
  | target_found
  | cost_cutoff_reached
  | exp_cutoff_reached

text \<open>
  The main loop (lines 271 to 424). It returns the value of \<^verbatim>\<open>target\<close> on leaving the
  loop (the id of the node found, or \<open>None\<close> for the null pointer), the way it left and
  the state it leaves.
\<close>

function search_loop ::
  "'h flexible_astar \<Rightarrow> problem_instance \<Rightarrow> int \<Rightarrow> int \<Rightarrow> 'h search_state
   \<Rightarrow> fault + (nat option \<times> loop_exit \<times> 'h search_state)" where
  "search_loop a inst gx gy s0 =
     (if open_list s0 = [] then Inr (None, frontier_exhausted, s0)
      else
        let s = s0\<lparr>nodes_touched := nodes_touched s0 + 1\<rparr> in
        if peek (pool s) (open_list s) = get_target_id inst
          then Inr (Some (peek (pool s) (open_list s)), target_found, s)
        else if dless (cost_cutoff a) (get_f (pool s ! peek (pool s) (open_list s)))
          then Inr (None, cost_cutoff_reached, s)
        else if exp_cutoff a \<le> nodes_expanded s then Inr (None, exp_cutoff_reached, s)
        else case expand_current a inst gx gy s of
               Inl e \<Rightarrow> Inl e
             | Inr s' \<Rightarrow> search_loop a inst gx gy s')"
  by pat_completeness auto
termination
proof (relation "measure (\<lambda>(a, inst, gx, gy, s). work_left s)")
  show "wf (measure (\<lambda>(a, inst, gx, gy, s). work_left s))"
    by simp
next
  fix a :: "'h flexible_astar" and inst gx gy and s0 :: "'h search_state" and s s'
  assume ne: "open_list s0 \<noteq> []"
    and s: "s = s0\<lparr>nodes_touched := nodes_touched s0 + 1\<rparr>"
    and run: "expand_current a inst gx gy s = Inr s'"
  from ne s have "open_list s \<noteq> []" by simp
  from work_left_expand_current [OF this run] s
  show "((a, inst, gx, gy, s'), (a, inst, gx, gy, s0)) \<in> measure (\<lambda>(a, inst, gx, gy, s). work_left s)"
    by (simp add: work_left_def unseen_def)
qed

declare search_loop.simps [simp del]

text \<open>
  Lines 235 to 251 of \<^verbatim>\<open>search\<close>: the search id is incremented (a 32-bit counter) and
  stored in the query; the query's start id is tested against \<^verbatim>\<open>INF\<close> (the early
  return, \<open>Inr None\<close> here); start and target are generated and \<^verbatim>\<open>get_id()\<close> is called
  on each pointer returned, without a test for null; the ids replace those of the query.
  The result is the query as updated and the start node.
\<close>

definition generate_endpoints ::
  "'h flexible_astar \<Rightarrow> problem_instance \<Rightarrow> fault + (problem_instance \<times> nat) option" where
  "generate_endpoints a instance0 =
     (let instance1 = instance0\<lparr>instance_search_id := (searchid a + 1) mod 2 ^ 32\<rparr>
      in if get_start_id instance1 = warthog_INF a then Inr None
         else case generate_start_node a instance1 of
           Inl e \<Rightarrow> Inl e
         | Inr None \<Rightarrow> Inl undefined_behaviour
         | Inr (Some start) \<Rightarrow>
             (let instance2 = instance1\<lparr>get_start_id := start\<rparr> in
              if get_target_id instance2 \<noteq> warthog_INF a
              then (case generate_target_node a instance2 of
                      Inl e \<Rightarrow> Inl e
                    | Inr None \<Rightarrow> Inl undefined_behaviour
                    | Inr (Some target) \<Rightarrow> Inr (Some (instance2\<lparr>get_target_id := target\<rparr>, start)))
              else Inr (Some (instance2, start))))"

text \<open>
  \<^verbatim>\<open>cleanup()\<close> and the reset of the counters (lines 225 to 228): the frontier and the
  pool are cleared.
\<close>

definition cleanup :: "'h flexible_astar \<Rightarrow> 'h \<Rightarrow> 'h search_state" where
  "cleanup a hs =
     \<lparr>pool = fresh_pool (get_nodes_pool_size a), open_list = [],
      nodes_expanded = 0, nodes_generated = 0, nodes_touched = 0, heap_ops = 0,
      hook_state = hs\<rparr>"

text \<open>
  Lines 264 to 269: the start node is initialised with g = 0 and its heuristic value,
  without parent, and pushed.
\<close>

definition push_start :: "'h flexible_astar \<Rightarrow> problem_instance \<Rightarrow> nat \<Rightarrow> 'h search_state \<Rightarrow> 'h search_state" where
  "push_start a inst start s0 =
     (let sx = fst (get_xy a (get_start_id inst));
          sy = snd (get_xy a (get_start_id inst));
          gx = fst (get_xy a (get_target_id inst));
          gy = snd (get_xy a (get_target_id inst))
      in s0\<lparr>pool := (pool s0)[start :=
                   init (instance_search_id inst) None (Finite 0) (heuristic_h a sx sy gx gy)
                     (pool s0 ! start)],
             open_list := [start]\<rparr>)"

text \<open>
  \<^verbatim>\<open>search(instance)\<close>, lines 222 to 439, with the way it ended and the state it leaves.
  A start node outside the pool is not a node the policy can have generated.
\<close>

definition search_run ::
  "'h flexible_astar \<Rightarrow> problem_instance \<Rightarrow> 'h
   \<Rightarrow> fault + (nat option \<times> loop_exit \<times> 'h search_state)" where
  "search_run a instance0 hs =
     (let s0 = cleanup a hs
      in case generate_endpoints a instance0 of
           Inl e \<Rightarrow> Inl e
         | Inr None \<Rightarrow> Inr (None, no_start_id, s0)
         | Inr (Some (inst, start)) \<Rightarrow>
             if \<not> start < length (pool s0) then Inl undefined_behaviour
             else search_loop a inst
                    (fst (get_xy a (get_target_id inst))) (snd (get_xy a (get_target_id inst)))
                    (push_start a inst start s0))"

text \<open>What \<^verbatim>\<open>search\<close> returns to its caller: the target node found, or the null pointer.\<close>

definition search :: "'h flexible_astar \<Rightarrow> problem_instance \<Rightarrow> 'h \<Rightarrow> fault + nat option" where
  "search a instance0 hs =
     (case search_run a instance0 hs of Inl e \<Rightarrow> Inl e | Inr r \<Rightarrow> Inr (fst r))"

text \<open>
  \<^verbatim>\<open>get_path(pi)\<close>, lines 63 to 82: the ids along the parent pointers from the target
  back to a node without parent, pushed on a stack; the list is the stack read from its
  top. The walk is the loop of line 72, which ends only at a null parent.
\<close>

partial_function (option) follow_parents :: "search_node list \<Rightarrow> nat option \<Rightarrow> nat list \<Rightarrow> nat list option" where
  "follow_parents p cur path =
     (case cur of
        None \<Rightarrow> Some path
      | Some c \<Rightarrow> follow_parents p (get_parent (p ! c)) (get_id (p ! c) # path))"

definition get_path :: "'h flexible_astar \<Rightarrow> problem_instance \<Rightarrow> 'h \<Rightarrow> (fault + nat list) option" where
  "get_path a instance0 hs =
     (case search_run a instance0 hs of
        Inl e \<Rightarrow> Some (Inl e)
      | Inr r \<Rightarrow>
          (case fst r of
             None \<Rightarrow> Some (Inr [])
           | Some target \<Rightarrow>
               map_option Inr (follow_parents (pool (snd (snd r))) (Some target) [])))"

text \<open>The way a search ended, beside what it returned.\<close>

definition search_exit :: "'h flexible_astar \<Rightarrow> problem_instance \<Rightarrow> 'h \<Rightarrow> fault + loop_exit" where
  "search_exit a instance0 hs =
     (case search_run a instance0 hs of Inl e \<Rightarrow> Inl e | Inr r \<Rightarrow> Inr (fst (snd r)))"

subsection \<open>The down-DFS policy as the engine's expansion policy\<close>

text \<open>
  \<^verbatim>\<open>generate_start_node\<close> and \<^verbatim>\<open>generate_target_node\<close> of the down-DFS policy (lines 88
  to 106): the query's external id is translated by the graph adapter's
  \<^verbatim>\<open>to_graph_id\<close> (a parameter); \<^verbatim>\<open>INF\<close> means that the id has no internal mapping and
  the null pointer is returned; otherwise the node's label is read with \<^verbatim>\<open>at\<close> and the
  node is generated. The label read is kept in a member that the label filter uses; it
  is not part of what is returned.
\<close>

definition fch_generate_start_node ::
  "(nat \<Rightarrow> nat) \<Rightarrow> int list \<Rightarrow> nat \<Rightarrow> problem_instance \<Rightarrow> fault + nat option" where
  "fch_generate_start_node to_graph_id node_labels inf_id inst =
     (let s_graph_id = to_graph_id (get_start_id inst)
      in if s_graph_id = inf_id then Inr None
         else if \<not> s_graph_id < length node_labels then Inl out_of_range
         else Inr (Some s_graph_id))"

definition fch_generate_target_node ::
  "(nat \<Rightarrow> nat) \<Rightarrow> int list \<Rightarrow> nat \<Rightarrow> problem_instance \<Rightarrow> fault + nat option" where
  "fch_generate_target_node to_graph_id node_labels inf_id inst =
     (let t_graph_id = to_graph_id (get_target_id inst)
      in if t_graph_id = inf_id then Inr None
         else if \<not> t_graph_id < length node_labels then Inl out_of_range
         else Inr (Some t_graph_id))"

text \<open>
  An engine over the down-DFS policy with a zero heuristic, no node filter and empty
  hooks: the policy \<open>p\<close>, the adapter's id translation, the node labels, the label filter,
  the two cutoffs and the value of \<^verbatim>\<open>INF\<close>.
\<close>

definition fch_down_dfs_astar ::
  "fch_down_dfs_expansion_policy \<Rightarrow> (nat \<Rightarrow> nat) \<Rightarrow> int list \<Rightarrow> (nat \<Rightarrow> nat \<Rightarrow> bool)
   \<Rightarrow> double \<Rightarrow> nat \<Rightarrow> nat \<Rightarrow> unit flexible_astar" where
  "fch_down_dfs_astar p to_graph_id node_labels filter_fn cost_cut exp_cut inf_id =
     \<lparr>heuristic_h = (\<lambda>x y x' y'. Finite 0),
      generate_start_node = fch_generate_start_node to_graph_id node_labels inf_id,
      generate_target_node = fch_generate_target_node to_graph_id node_labels inf_id,
      expander_expand = (\<lambda>current inst. expand p filter_fn current),
      get_xy = (\<lambda>i. (0, 0)),
      get_nodes_pool_size = length (policy_g p),
      node_filter = None,
      cost_cutoff = cost_cut,
      exp_cutoff = exp_cut,
      on_relax_fn = (\<lambda>n hs. hs),
      on_norelax_fn = (\<lambda>n current c hs. hs),
      searchid = 0,
      warthog_INF = inf_id\<rparr>"

subsection \<open>Notions used to state properties of a search\<close>

text \<open>The parent references of a pool: \<open>(q, n)\<close> when node \<open>n\<close> of the pool has parent \<open>q\<close>.\<close>

definition parent_rel :: "search_node list \<Rightarrow> (nat \<times> nat) set" where
  "parent_rel p = {(q, n). n < length p \<and> get_parent (p ! n) = Some q}"

text \<open>Every cost the expansion policy hands to the engine satisfies \<open>P\<close>.\<close>

definition costs_in :: "'h flexible_astar \<Rightarrow> (double \<Rightarrow> bool) \<Rightarrow> bool" where
  "costs_in a P =
     (\<forall>current inst ncs. expander_expand a current inst = Inr ncs \<longrightarrow> (\<forall>nc \<in> set ncs. P (snd nc)))"

text \<open>
  The invariant of the main loop behind the parent structure. \<open>t\<close> orders the nodes by
  the time of their expansion: the frontier holds unexpanded nodes of the pool, once
  each; a parent is an expanded node, earlier in \<open>t\<close> than its child, and the child's g
  is the sum, as \<^verbatim>\<open>double\<close>s, of the parent's g and a cost the policy handed out; the
  start node has no parent and is expanded as soon as anything is; every other node that
  was expanded or is in the frontier has a parent; the g of every node that was expanded
  or is in the frontier satisfies \<open>Q\<close>.
\<close>

definition parents_ok ::
  "(double \<Rightarrow> bool) \<Rightarrow> (double \<Rightarrow> bool) \<Rightarrow> nat \<Rightarrow> (nat \<Rightarrow> nat) \<Rightarrow> 'h search_state \<Rightarrow> bool" where
  "parents_ok P Q start t s =
     (distinct (open_list s)
      \<and> (\<forall>i \<in> set (open_list s). i < length (pool s) \<and> \<not> get_expanded (pool s ! i))
      \<and> (\<forall>q n. (q, n) \<in> parent_rel (pool s) \<longrightarrow>
            q < length (pool s) \<and> get_expanded (pool s ! q) \<and> t q < t n
            \<and> (\<exists>c. P c \<and> get_g (pool s ! n) = dadd (get_g (pool s ! q)) c))
      \<and> (\<forall>i < length (pool s). get_expanded (pool s ! i) \<longrightarrow> t i < nodes_expanded s)
      \<and> start < length (pool s)
      \<and> get_parent (pool s ! start) = None
      \<and> (get_expanded (pool s ! start) \<or> open_list s = [start])
      \<and> (\<forall>i < length (pool s). (get_expanded (pool s ! i) \<or> i \<in> set (open_list s)) \<longrightarrow>
            i = start \<or> get_parent (pool s ! i) \<noteq> None)
      \<and> (\<forall>i < length (pool s). (get_expanded (pool s ! i) \<or> i \<in> set (open_list s)) \<longrightarrow>
            Q (get_g (pool s ! i))))"

subsection \<open>A small hierarchy used in examples\<close>

text \<open>
  Four nodes ranked by their ids; the edges 0 \<open>\<rightarrow>\<close> 1 and 1 \<open>\<rightarrow>\<close> 2 of weight 1, both up
  edges; node 3 has no edge. The adapter maps the external ids 0 to 3 to themselves and
  every other id to \<^verbatim>\<open>INF\<close>, taken as \<open>2\<^sup>3\<^sup>2 - 1\<close>.
\<close>

definition ex_policy :: fch_down_dfs_expansion_policy where
  "ex_policy = \<lparr>policy_g = [[\<lparr>node_id = 1, wt = Finite 1\<rparr>], [\<lparr>node_id = 2, wt = Finite 1\<rparr>], [], []],
                 policy_rank = [0, 1, 2, 3], policy_down_heads = [1, 1, 0, 0]\<rparr>"

definition ex_to_graph_id :: "nat \<Rightarrow> nat" where
  "ex_to_graph_id i = (if i < 4 then i else 4294967295)"

text \<open>The engine over this hierarchy with expansion cutoff \<open>exp_cut\<close> and no cost cutoff.\<close>

definition ex_astar :: "nat \<Rightarrow> unit flexible_astar" where
  "ex_astar exp_cut =
     fch_down_dfs_astar ex_policy ex_to_graph_id [0, 1, 2, 3] (\<lambda>n i. False)
       (Finite 4294967295) exp_cut 4294967295"

definition ex_query :: "nat \<Rightarrow> nat \<Rightarrow> problem_instance" where
  "ex_query s t = \<lparr>get_start_id = s, get_target_id = t, instance_search_id = 0\<rparr>"

text \<open>The same hierarchy with the edge 0 \<open>\<rightarrow>\<close> 1 of weight 0.\<close>

definition ex_policy_zero :: fch_down_dfs_expansion_policy where
  "ex_policy_zero =
     ex_policy\<lparr>policy_g := [[\<lparr>node_id = 1, wt = Finite 0\<rparr>], [\<lparr>node_id = 2, wt = Finite 1\<rparr>], [], []]\<rparr>"

definition ex_astar_zero :: "unit flexible_astar" where
  "ex_astar_zero =
     fch_down_dfs_astar ex_policy_zero ex_to_graph_id [0, 1, 2, 3] (\<lambda>n i. False)
       (Finite 4294967295) 4294967295 4294967295"

text \<open>
  The engine is a template over its expansion policy. Here it runs over a policy on the
  same four nodes that hands out the step 0 \<open>\<rightarrow>\<close> 1 at the cost \<open>2\<^sup>5\<^sup>3\<close> and the step
  1 \<open>\<rightarrow>\<close> 2 at the cost 1, with the cost cutoff at \<open>+\<infinity>\<close>: the sum \<open>2\<^sup>5\<^sup>3 + 1\<close> loses the
  positive cost 1 to rounding.
\<close>

definition ex_astar_big :: "unit flexible_astar" where
  "ex_astar_big =
     (ex_astar 4294967295)
       \<lparr>expander_expand :=
          (\<lambda>current inst.
             Inr (if get_id current = 0 then [(1, Finite 9007199254740992)]
                  else if get_id current = 1 then [(2, Finite 1)]
                  else [])),
        cost_cutoff := PlusInf\<rparr>"

section \<open>The DFS-interval label builder\<close>

subsection \<open>Labels\<close>

text \<open>
  \<^verbatim>\<open>down_dfs_labelling.h\<close>, which declares \<^verbatim>\<open>down_dfs_label\<close> and the types of its
  members, is missing. The spec has a label as a tuple of a contiguous interval over
  DFS-postorder ids, a contiguous interval over ranks, an axis-aligned bounding box over
  coordinates and a bit vector over partition ids, merged by interval union,
  bounding-box union and bitwise or, and grown one value at a time. The definitions of
  this subsection follow these words, member by member.
\<close>

definition INT32_MAX :: int where
  "INT32_MAX = 2147483647"

definition INT32_MIN :: int where
  "INT32_MIN = - 2147483648"

text \<open>
  Modelled from the spec: the type of \<^verbatim>\<open>rank_\<close> and \<^verbatim>\<open>ids_\<close> is missing. A contiguous
  integer interval, given by its two ends.
\<close>

record id_range =
  range_left :: int
  range_right :: int

text \<open>
  Modelled from the spec: the interval's constructor is missing. An interval is
  constructed empty: its left end is above its right end.
\<close>

definition range_init :: id_range where
  "range_init = \<lparr>range_left = INT32_MAX, range_right = INT32_MIN\<rparr>"

text \<open>
  Modelled from the spec: the interval's \<^verbatim>\<open>grow\<close> is missing. The smallest interval
  that contains the interval and the value.
\<close>

definition range_grow :: "int \<Rightarrow> id_range \<Rightarrow> id_range" where
  "range_grow v r = \<lparr>range_left = min (range_left r) v, range_right = max (range_right r) v\<rparr>"

text \<open>Modelled from the spec: the interval's \<^verbatim>\<open>merge\<close> is missing. Interval union.\<close>

definition range_merge :: "id_range \<Rightarrow> id_range \<Rightarrow> id_range" where
  "range_merge r other =
     \<lparr>range_left = min (range_left r) (range_left other),
      range_right = max (range_right r) (range_right other)\<rparr>"


text \<open>
  Modelled from the spec: the type of \<^verbatim>\<open>bbox_\<close> is missing. An axis-aligned bounding
  box, given by two corners.
\<close>

record bbox =
  bbox_x1 :: int
  bbox_y1 :: int
  bbox_x2 :: int
  bbox_y2 :: int

text \<open>Modelled from the spec: the box's constructor is missing. A box is constructed empty.\<close>

definition bbox_init :: bbox where
  "bbox_init = \<lparr>bbox_x1 = INT32_MAX, bbox_y1 = INT32_MAX, bbox_x2 = INT32_MIN, bbox_y2 = INT32_MIN\<rparr>"

text \<open>
  Modelled from the spec: the box's \<^verbatim>\<open>grow\<close> is missing. The smallest box that contains
  the box and the point.
\<close>

definition bbox_grow :: "int \<Rightarrow> int \<Rightarrow> bbox \<Rightarrow> bbox" where
  "bbox_grow x y b =
     \<lparr>bbox_x1 = min (bbox_x1 b) x, bbox_y1 = min (bbox_y1 b) y,
      bbox_x2 = max (bbox_x2 b) x, bbox_y2 = max (bbox_y2 b) y\<rparr>"

text \<open>Modelled from the spec: the box's \<^verbatim>\<open>merge\<close> is missing. Bounding-box union.\<close>

definition bbox_merge :: "bbox \<Rightarrow> bbox \<Rightarrow> bbox" where
  "bbox_merge b other =
     \<lparr>bbox_x1 = min (bbox_x1 b) (bbox_x1 other), bbox_y1 = min (bbox_y1 b) (bbox_y1 other),
      bbox_x2 = max (bbox_x2 b) (bbox_x2 other), bbox_y2 = max (bbox_y2 b) (bbox_y2 other)\<rparr>"


text \<open>
  Modelled from the spec: the declaration of \<^verbatim>\<open>down_dfs_label\<close> is missing. The four
  members the source names: \<^verbatim>\<open>rank_\<close>, \<^verbatim>\<open>ids_\<close>, \<^verbatim>\<open>bbox_\<close> and the flag bytes
  \<^verbatim>\<open>flags_\<close>.
\<close>

record down_dfs_label =
  label_rank :: id_range
  label_ids :: id_range
  label_bbox :: bbox
  label_flags :: "8 word list"

text \<open>
  Modelled from the spec: the constructor \<^verbatim>\<open>down_dfs_label(bytes_per_af_label)\<close> is
  missing. A label is constructed empty, with the given number of flag bytes, all 0.
\<close>

definition down_dfs_label_init :: "nat \<Rightarrow> down_dfs_label" where
  "down_dfs_label_init bytes_per_af_label =
     \<lparr>label_rank = range_init, label_ids = range_init, label_bbox = bbox_init,
      label_flags = replicate bytes_per_af_label 0\<rparr>"

text \<open>
  Modelled from the spec: \<^verbatim>\<open>down_dfs_label::merge\<close> is missing. Interval union on the
  two intervals, bounding-box union and bitwise or of the flag bytes.
\<close>

definition merge :: "down_dfs_label \<Rightarrow> down_dfs_label \<Rightarrow> down_dfs_label" where
  "merge l other =
     \<lparr>label_rank = range_merge (label_rank l) (label_rank other),
      label_ids = range_merge (label_ids l) (label_ids other),
      label_bbox = bbox_merge (label_bbox l) (label_bbox other),
      label_flags = map2 (OR) (label_flags l) (label_flags other)\<rparr>"

text \<open>
  What both \<^verbatim>\<open>label_fn\<close> (lines 98 to 107) and \<^verbatim>\<open>on_expand_fn\<close> (lines 235 to 243) do to
  a label with the attributes of a node: grow the rank interval, the id interval and
  the bounding box, and set the node's partition bit with
  \<^verbatim>\<open>flags_[s_part >> 3] |= (1 << (s_part & 7))\<close>, a write with no bounds check.
\<close>

definition grow_label :: "nat \<Rightarrow> int \<Rightarrow> int \<times> int \<Rightarrow> nat \<Rightarrow> down_dfs_label \<Rightarrow> fault + down_dfs_label" where
  "grow_label node_rank dfs_id xy s_part s_lab =
     (if \<not> s_part div 8 < length (label_flags s_lab) then Inl undefined_behaviour
      else Inr \<lparr>label_rank = range_grow (int node_rank) (label_rank s_lab),
                label_ids = range_grow dfs_id (label_ids s_lab),
                label_bbox = bbox_grow (fst xy) (snd xy) (label_bbox s_lab),
                label_flags = (label_flags s_lab)[s_part div 8 :=
                   (label_flags s_lab ! (s_part div 8)) OR (push_bit (s_part mod 8) 1)]\<rparr>)"



subsection \<open>The state of the builder\<close>

text \<open>
  The inputs of \<^verbatim>\<open>down_dfs_labelling\<close>: the graph, the coordinates of its nodes
  (\<^verbatim>\<open>g_->get_xy\<close>), the partition of the nodes (\<^verbatim>\<open>part_\<close>) and the number of flag bytes of
  a label computed by the constructor.
\<close>

record labelling_input =
  in_g :: graph
  in_xy :: "(int \<times> int) list"
  in_part :: "nat list"
  bytes_per_af_label :: nat

text \<open>
  What \<^verbatim>\<open>compute_labels\<close> writes: the members \<^verbatim>\<open>dfs_order_\<close> and \<^verbatim>\<open>lab_\<close>, and the locals
  \<^verbatim>\<open>node_labels\<close>, \<^verbatim>\<open>dfs_id\<close> and \<^verbatim>\<open>up_apex\<close> that its two recursive lambdas capture by
  reference.
\<close>

record labelling_state =
  dfs_order :: "int list"
  lab :: "down_dfs_label list list"
  node_labels :: "down_dfs_label list"
  dfs_id :: nat
  up_apex :: "int list"

subsection \<open>Stage C: postorder labels of the down edges\<close>

text \<open>
  \<^verbatim>\<open>label_fn\<close> (lines 65 to 109) is recursive, with nothing in it that bounds the
  recursion: the first argument of the model is the number of nested calls allowed, and
  \<open>None\<close> says that it did not suffice. \<open>label_fn_edges\<close> is the loop of lines 73 to 93
  from the edge at index \<open>idx\<close> on; the reference \<^verbatim>\<open>s_lab\<close> is the entry of
  \<open>node_labels\<close> at \<open>source_id\<close>.
\<close>

fun label_fn :: "nat \<Rightarrow> labelling_input \<Rightarrow> nat list \<Rightarrow> nat \<Rightarrow> labelling_state
                 \<Rightarrow> (fault + labelling_state) option"
  and label_fn_edges :: "nat \<Rightarrow> labelling_input \<Rightarrow> nat list \<Rightarrow> nat \<Rightarrow> nat \<Rightarrow> edge list
                 \<Rightarrow> labelling_state \<Rightarrow> (fault + labelling_state) option" where
  "label_fn 0 inp rank source_id st = None"
| "label_fn (Suc fuel) inp rank source_id st =
     (if \<not> source_id < length (node_labels st) then Some (Inl out_of_range)
      else if \<not> source_id < length (in_g inp) then Some (Inl undefined_behaviour)
      else case label_fn_edges fuel inp rank source_id 0 (in_g inp ! source_id) st of
        None \<Rightarrow> None
      | Some (Inl e) \<Rightarrow> Some (Inl e)
      | Some (Inr st1) \<Rightarrow>
          if \<not> source_id < length (dfs_order st1) then Some (Inl out_of_range)
          else
            let st2 = (if dfs_order st1 ! source_id = INT32_MAX
                       then st1\<lparr>dfs_order := (dfs_order st1)[source_id := int (dfs_id st1)],
                                dfs_id := dfs_id st1 + 1\<rparr>
                       else st1)
            in if \<not> (source_id < length rank \<and> source_id < length (in_part inp)
                      \<and> source_id < length (node_labels st2))
               then Some (Inl out_of_range)
               else if \<not> source_id < length (in_xy inp) then Some (Inl undefined_behaviour)
               else case grow_label (rank ! source_id) (dfs_order st2 ! source_id)
                           (in_xy inp ! source_id) (in_part inp ! source_id)
                           (node_labels st2 ! source_id) of
                      Inl e \<Rightarrow> Some (Inl e)
                    | Inr s_lab \<Rightarrow>
                        Some (Inr (st2\<lparr>node_labels := (node_labels st2)[source_id := s_lab]\<rparr>)))"
| "label_fn_edges fuel inp rank source_id idx [] st = Some (Inr st)"
| "label_fn_edges fuel inp rank source_id idx (e # es) st =
     (if \<not> (node_id e < length rank \<and> source_id < length rank) then Some (Inl out_of_range)
      else if rank ! source_id < rank ! node_id e
        then label_fn_edges fuel inp rank source_id (Suc idx) es st
      else if \<not> node_id e < length (dfs_order st) then Some (Inl out_of_range)
      else case (if dfs_order st ! node_id e = INT32_MAX
                 then label_fn fuel inp rank (node_id e) st
                 else Some (Inr st)) of
        None \<Rightarrow> None
      | Some (Inl e) \<Rightarrow> Some (Inl e)
      | Some (Inr st1) \<Rightarrow>
          if \<not> (source_id < length (lab st1) \<and> idx < length (lab st1 ! source_id)
                 \<and> node_id e < length (node_labels st1) \<and> source_id < length (node_labels st1))
          then Some (Inl out_of_range)
          else label_fn_edges fuel inp rank source_id (Suc idx) es
                 (st1\<lparr>lab := (lab st1)[source_id :=
                               (lab st1 ! source_id)[idx := node_labels st1 ! node_id e]],
                       node_labels := (node_labels st1)[source_id :=
                               merge (node_labels st1 ! source_id) (node_labels st1 ! node_id e)]\<rparr>))"

subsection \<open>Stage D: labels of the up edges\<close>

text \<open>
  \<^verbatim>\<open>up_label_fn\<close> (lines 114 to 154), recursive like \<^verbatim>\<open>label_fn\<close> and bounded in the same
  way. \<open>up_closure\<close> is its first loop (lines 124 to 138), which yields the local
  \<^verbatim>\<open>apex_id\<close>; \<open>label_up_edges\<close> is its second loop (lines 144 to 153) from the edge at
  index \<open>idx\<close> on, over \<^verbatim>\<open>lab_\<close>, with the vector \<^verbatim>\<open>node_labels\<close> it reads. \<^verbatim>\<open>up_apex\<close>
  holds \<^verbatim>\<open>int32_t\<close> values that are read back as node ids.
\<close>

fun label_up_edges :: "nat list \<Rightarrow> down_dfs_label list \<Rightarrow> nat \<Rightarrow> nat \<Rightarrow> nat \<Rightarrow> edge list
                       \<Rightarrow> down_dfs_label list list \<Rightarrow> fault + down_dfs_label list list" where
  "label_up_edges rank nl source_id apex_id idx [] lb = Inr lb"
| "label_up_edges rank nl source_id apex_id idx (e # es) lb =
     (if \<not> (node_id e < length rank \<and> source_id < length rank) then Inl out_of_range
      else if rank ! node_id e < rank ! source_id
        then label_up_edges rank nl source_id apex_id (Suc idx) es lb
      else if \<not> (source_id < length lb \<and> idx < length (lb ! source_id)
                 \<and> apex_id < length nl)
        then Inl out_of_range
      else label_up_edges rank nl source_id apex_id (Suc idx) es
             (lb[source_id := (lb ! source_id)[idx := merge (lb ! source_id ! idx) (nl ! apex_id)]]))"

fun up_label_fn :: "nat \<Rightarrow> labelling_input \<Rightarrow> nat list \<Rightarrow> nat \<Rightarrow> labelling_state
                    \<Rightarrow> (fault + labelling_state) option"
  and up_closure :: "nat \<Rightarrow> labelling_input \<Rightarrow> nat list \<Rightarrow> nat \<Rightarrow> nat \<Rightarrow> edge list
                    \<Rightarrow> labelling_state \<Rightarrow> (fault + nat \<times> labelling_state) option" where
  "up_label_fn 0 inp rank source_id st = None"
| "up_label_fn (Suc fuel) inp rank source_id st =
     (if \<not> source_id < length (in_g inp) then Some (Inl undefined_behaviour)
      else case up_closure fuel inp rank source_id source_id (in_g inp ! source_id) st of
        None \<Rightarrow> None
      | Some (Inl e) \<Rightarrow> Some (Inl e)
      | Some (Inr (apex_id, st1)) \<Rightarrow>
          if \<not> source_id < length (up_apex st1) then Some (Inl out_of_range)
          else
            let st2 = st1\<lparr>up_apex := (up_apex st1)[source_id := int apex_id]\<rparr>
            in case label_up_edges rank (node_labels st2) source_id apex_id 0
                      (in_g inp ! source_id) (lab st2) of
                 Inl e \<Rightarrow> Some (Inl e)
               | Inr lb \<Rightarrow> Some (Inr (st2\<lparr>lab := lb\<rparr>)))"
| "up_closure fuel inp rank source_id apex_id [] st = Some (Inr (apex_id, st))"
| "up_closure fuel inp rank source_id apex_id (e # es) st =
     (if \<not> (node_id e < length rank \<and> source_id < length rank) then Some (Inl out_of_range)
      else if rank ! node_id e < rank ! source_id
        then up_closure fuel inp rank source_id apex_id es st
      else if \<not> node_id e < length (up_apex st) then Some (Inl out_of_range)
      else case (if up_apex st ! node_id e = INT32_MAX
                 then up_label_fn fuel inp rank (node_id e) st
                 else Some (Inr st)) of
        None \<Rightarrow> None
      | Some (Inl e) \<Rightarrow> Some (Inl e)
      | Some (Inr st1) \<Rightarrow>
          if \<not> node_id e < length (up_apex st1) then Some (Inl out_of_range)
          else
            let succ_apex_id = nat (up_apex st1 ! node_id e)
            in if \<not> (succ_apex_id < length rank \<and> apex_id < length rank)
               then Some (Inl out_of_range)
               else up_closure fuel inp rank source_id
                      (if rank ! apex_id < rank ! succ_apex_id then succ_apex_id else apex_id)
                      es st1)"

subsection \<open>The whole of \<^verbatim>\<open>compute_labels\<close>\<close>

text \<open>The scan for the apex (lines 43 to 48): the first node of maximum rank.\<close>

fun find_apex :: "nat list \<Rightarrow> nat \<Rightarrow> nat list \<Rightarrow> nat" where
  "find_apex rank apex_id [] = apex_id"
| "find_apex rank apex_id (i # is) =
     find_apex rank (if rank ! apex_id < rank ! i then i else apex_id) is"

text \<open>The loop of lines 156 to 159: \<^verbatim>\<open>up_label_fn\<close> is called for every node, in order.\<close>

fun up_label_all :: "nat \<Rightarrow> labelling_input \<Rightarrow> nat list \<Rightarrow> nat list \<Rightarrow> labelling_state
                     \<Rightarrow> (fault + labelling_state) option" where
  "up_label_all fuel inp rank [] st = Some (Inr st)"
| "up_label_all fuel inp rank (n_id # ns) st =
     (case up_label_fn fuel inp rank n_id st of
        None \<Rightarrow> None
      | Some (Inl e) \<Rightarrow> Some (Inl e)
      | Some (Inr st1) \<Rightarrow> up_label_all fuel inp rank ns st1)"

text \<open>
  The state after the allocations of lines 38 to 61 and 113, on a labelling object just
  constructed (its vectors empty before).
\<close>

definition labelling_init :: "labelling_input \<Rightarrow> labelling_state" where
  "labelling_init inp =
     \<lparr>dfs_order = replicate (length (in_g inp)) INT32_MAX,
      lab = map (\<lambda>es. replicate (length es) (down_dfs_label_init (bytes_per_af_label inp))) (in_g inp),
      node_labels = replicate (length (in_g inp)) (down_dfs_label_init (bytes_per_af_label inp)),
      dfs_id = 0,
      up_apex = replicate (length (in_g inp)) INT32_MAX\<rparr>"

text \<open>Stage C alone: the state when \<^verbatim>\<open>label_fn(apex_id)\<close> has returned (line 110).\<close>

definition compute_down_labels :: "nat \<Rightarrow> labelling_input \<Rightarrow> nat list \<Rightarrow> (fault + labelling_state) option" where
  "compute_down_labels fuel inp rank =
     label_fn fuel inp rank (find_apex rank 0 [0..<length rank]) (labelling_init inp)"

definition compute_labels :: "nat \<Rightarrow> labelling_input \<Rightarrow> nat list \<Rightarrow> (fault + labelling_state) option" where
  "compute_labels fuel inp rank =
     (case compute_down_labels fuel inp rank of
        None \<Rightarrow> None
      | Some (Inl e) \<Rightarrow> Some (Inl e)
      | Some (Inr st) \<Rightarrow> up_label_all fuel inp rank [0..<length (in_g inp)] st)"

subsection \<open>Stage E: the refinement pass\<close>








subsection \<open>A hierarchy with two ways up\<close>

text \<open>
  Three nodes ranked by their ids. Node 0 has the up edges 0 \<open>\<rightarrow>\<close> 1 and 0 \<open>\<rightarrow>\<close> 2; node 2, the
  apex, has the down edge 2 \<open>\<rightarrow>\<close> 1; node 1 has no edge. Node \<open>i\<close> lies at \<open>(i, 0)\<close> and
  is alone in partition \<open>i\<close>.
\<close>

definition ex_labelling_input :: labelling_input where
  "ex_labelling_input =
     \<lparr>in_g = [[\<lparr>node_id = 1, wt = Finite 1\<rparr>, \<lparr>node_id = 2, wt = Finite 1\<rparr>], [], [\<lparr>node_id = 1, wt = Finite 1\<rparr>]],
      in_xy = [(0, 0), (1, 0), (2, 0)],
      in_part = [0, 1, 2],
      bytes_per_af_label = 1\<rparr>"

text \<open>The labels Stage C gives to node 1 and to node 2 in this hierarchy.\<close>

definition ex_label_1 :: down_dfs_label where
  "ex_label_1 =
     \<lparr>label_rank = \<lparr>range_left = 1, range_right = 1\<rparr>,
      label_ids = \<lparr>range_left = 0, range_right = 0\<rparr>,
      label_bbox = \<lparr>bbox_x1 = 1, bbox_y1 = 0, bbox_x2 = 1, bbox_y2 = 0\<rparr>,
      label_flags = [2]\<rparr>"

definition ex_label_2 :: down_dfs_label where
  "ex_label_2 =
     \<lparr>label_rank = \<lparr>range_left = 1, range_right = 2\<rparr>,
      label_ids = \<lparr>range_left = 0, range_right = 1\<rparr>,
      label_bbox = \<lparr>bbox_x1 = 1, bbox_y1 = 0, bbox_x2 = 2, bbox_y2 = 0\<rparr>,
      label_flags = [6]\<rparr>"

subsection \<open>A node of out-degree 100\<close>





subsection \<open>Notions used to state properties of the refinement pass\<close>



subsection \<open>Notions used to state properties of Stage D\<close>




section \<open>Properties of double-precision addition\<close>

lemma ilog2_bounds: "0 < n \<Longrightarrow> 2 ^ ilog2 n \<le> n \<and> n < 2 ^ Suc (ilog2 n)"
proof (induction n rule: ilog2.induct)
  case (1 n)
  show ?case
  proof (cases "n < 2")
    case True
    with "1.prems" show ?thesis
      by (simp add: ilog2.simps [of n])
  next
    case False
    then have "0 < n div 2" by simp
    with "1.IH" False have ih: "2 ^ ilog2 (n div 2) \<le> n div 2"
      "n div 2 < 2 ^ Suc (ilog2 (n div 2))"
      by simp_all
    from False have e: "ilog2 n = Suc (ilog2 (n div 2))"
      by (simp add: ilog2.simps [of n])
    from ih show ?thesis
      unfolding e by simp linarith
  qed
qed

lemma ilog2_less: "n < 2 ^ e \<Longrightarrow> 0 < n \<Longrightarrow> ilog2 n < e"
proof -
  assume a: "n < 2 ^ e" "0 < n"
  from ilog2_bounds [OF a(2)] a(1) have "(2::nat) ^ ilog2 n < 2 ^ e"
    by (meson le_less_trans)
  then show ?thesis
    by (simp only: power_strict_increasing_iff [of 2] one_less_numeral_iff semiring_norm)
qed

lemma ilog2_unique: "2 ^ e \<le> n \<Longrightarrow> n < 2 ^ Suc e \<Longrightarrow> ilog2 n = e"
proof -
  assume a: "2 ^ e \<le> n" "n < 2 ^ Suc e"
  then have p: "0 < n"
    by (metis less_le_trans zero_less_numeral zero_less_power)
  from ilog2_less [OF a(2) p] have "ilog2 n \<le> e" by simp
  moreover from ilog2_bounds [OF p] a(1) have "(2::nat) ^ e < 2 ^ Suc (ilog2 n)"
    by linarith
  then have "e < Suc (ilog2 n)"
    by (simp only: power_strict_increasing_iff [of 2] one_less_numeral_iff semiring_norm)
  ultimately show ?thesis by simp
qed

lemma ilog2_mono: "m \<le> n \<Longrightarrow> ilog2 m \<le> ilog2 n"
proof (cases "0 < m")
  case False
  then show ?thesis by (simp add: ilog2.simps [of 0])
next
  case True
  assume a: "m \<le> n"
  with True have n: "0 < n" by simp
  from ilog2_bounds [OF True] ilog2_bounds [OF n] a
  have "(2::nat) ^ ilog2 m < 2 ^ Suc (ilog2 n)" by linarith
  then have "ilog2 m < Suc (ilog2 n)"
    by (simp only: power_strict_increasing_iff [of 2] one_less_numeral_iff semiring_norm)
  then show ?thesis by simp
qed

lemma round_even_ge_floor: "\<lfloor>q\<rfloor> \<le> round_even q"
  by (simp add: round_even_def Let_def)

lemma round_even_of_int: "round_even (of_int i) = i"
  by (simp add: round_even_def Let_def)

lemma round_even_le: "q \<le> of_int b \<Longrightarrow> round_even q \<le> b"
proof -
  assume a: "q \<le> of_int b"
  then have f: "\<lfloor>q\<rfloor> \<le> b" by (simp add: floor_le_iff)
  show ?thesis
  proof (cases "q = of_int \<lfloor>q\<rfloor>")
    case True
    then have "round_even q = \<lfloor>q\<rfloor>"
      by (metis round_even_of_int)
    with f show ?thesis by simp
  next
    case False
    then have "of_int \<lfloor>q\<rfloor> < q"
      by (metis of_int_floor_le order_le_imp_less_or_eq)
    with a have "of_int \<lfloor>q\<rfloor> < (of_int b :: real)" by linarith
    then have "\<lfloor>q\<rfloor> < b" by simp
    moreover have "round_even q \<le> \<lfloor>q\<rfloor> + 1"
      by (simp add: round_even_def Let_def)
    ultimately show ?thesis by simp
  qed
qed

lemma floor_div_pow2: "0 \<le> (N::real) \<Longrightarrow> nat \<lfloor>N / 2 ^ k\<rfloor> = nat \<lfloor>N\<rfloor> div 2 ^ k"
proof -
  assume n: "0 \<le> N"
  have "\<lfloor>N / 2 ^ k\<rfloor> = \<lfloor>N / of_int (2 ^ k)\<rfloor>" by simp
  also have "\<dots> = \<lfloor>N\<rfloor> div 2 ^ k"
    by (rule floor_divide_real_eq_div) simp
  finally show ?thesis
    using n by (simp add: nat_div_distrib nat_power_eq)
qed

lemma multiple_below: "d dvd a \<Longrightarrow> a \<le> b \<Longrightarrow> 0 < d \<Longrightarrow> a \<le> (b div d) * (d::nat)"
proof -
  assume a: "d dvd a" "a \<le> b" "0 < d"
  then obtain c where c: "a = d * c" by (auto elim: dvdE)
  with a have "c \<le> b div d"
    by (simp add: less_eq_div_iff_mult_less_eq mult.commute)
  with c show ?thesis by (simp add: mult.commute)
qed

lemma round_scaled_ge_floor:
  assumes "0 \<le> N"
  shows "(nat \<lfloor>N\<rfloor> div 2 ^ (ilog2 (nat \<lfloor>N\<rfloor>) - 52)) * 2 ^ (ilog2 (nat \<lfloor>N\<rfloor>) - 52) \<le> round_scaled N"
proof -
  let ?k = "ilog2 (nat \<lfloor>N\<rfloor>) - 52"
  have "nat \<lfloor>N / 2 ^ ?k\<rfloor> \<le> nat (round_even (N / 2 ^ ?k))"
    using round_even_ge_floor [of "N / 2 ^ ?k"] by (rule nat_mono)
  then show ?thesis
    unfolding floor_div_pow2 [OF assms] by (simp add: round_scaled_def Let_def)
qed

text \<open>Rounding does not step over a number that needs no rounding.\<close>

lemma round_scaled_above:
  assumes d: "2 ^ (ilog2 n - 52) dvd n" and le: "real n \<le> N"
  shows "n \<le> round_scaled N"
proof -
  let ?n0 = "nat \<lfloor>N\<rfloor>"
  let ?k = "ilog2 ?n0 - 52"
  from le have N: "0 \<le> N" by (meson of_nat_0_le_iff order_trans)
  from le have n0: "n \<le> ?n0" by (simp add: le_nat_floor)
  have low: "n \<le> (?n0 div 2 ^ ?k) * 2 ^ ?k"
  proof (cases "ilog2 n - 52 = ?k")
    case True
    with d n0 show ?thesis by (intro multiple_below) simp_all
  next
    case False
    with ilog2_mono [OF n0] have lt: "ilog2 n < ilog2 ?n0" and big: "52 < ilog2 ?n0"
      by linarith+
    have p0: "0 < ?n0"
    proof (rule ccontr)
      assume "\<not> 0 < ?n0"
      then have "ilog2 ?n0 = 0" by (simp add: ilog2.simps [of 0])
      with big show False by simp
    qed
    have "n < 2 ^ ilog2 ?n0"
    proof (cases "0 < n")
      case True
      from ilog2_bounds [OF True] have "n < 2 ^ Suc (ilog2 n)" by simp
      also from lt have "(2::nat) ^ Suc (ilog2 n) \<le> 2 ^ ilog2 ?n0"
        by (intro power_increasing) simp_all
      finally show ?thesis .
    next
      case False
      then show ?thesis by simp
    qed
    also have "(2::nat) ^ ilog2 ?n0 \<le> (?n0 div 2 ^ ?k) * 2 ^ ?k"
      using ilog2_bounds [OF p0] by (intro multiple_below) (simp_all add: le_imp_power_dvd)
    finally show ?thesis by simp
  qed
  with round_scaled_ge_floor [OF N] show ?thesis by linarith
qed

text \<open>A number that needs no rounding is left as it is.\<close>

lemma round_scaled_exact:
  assumes "2 ^ (ilog2 n - 52) dvd n"
  shows "round_scaled (real n) = n"
proof -
  let ?k = "ilog2 n - 52"
  from assms obtain c where c: "n = 2 ^ ?k * c" by (auto elim: dvdE)
  have "real n / 2 ^ ?k = real c"
    by (subst c) simp
  then have "round_even (real n / 2 ^ ?k) = int c"
    using round_even_of_int [of "int c"] by simp
  then have "round_scaled (real n) = c * 2 ^ ?k"
    by (simp add: round_scaled_def Let_def)
  with c show ?thesis by (simp add: mult.commute)
qed

text \<open>The result of rounding needs no rounding.\<close>

lemma round_scaled_closed:
  assumes "0 \<le> N"
  shows "2 ^ (ilog2 (round_scaled N) - 52) dvd round_scaled N"
proof -
  let ?n0 = "nat \<lfloor>N\<rfloor>"
  let ?k = "ilog2 ?n0 - 52"
  let ?m = "nat (round_even (N / 2 ^ ?k))"
  have r: "round_scaled N = ?m * 2 ^ ?k"
    by (simp add: round_scaled_def Let_def)
  have "?n0 < 2 ^ (?k + 53)"
  proof (cases "0 < ?n0")
    case True
    from ilog2_bounds [OF True] have "?n0 < 2 ^ Suc (ilog2 ?n0)" by simp
    also have "(2::nat) ^ Suc (ilog2 ?n0) \<le> 2 ^ (?k + 53)"
      by (intro power_increasing) simp_all
    finally show ?thesis .
  next
    case False
    then show ?thesis by simp
  qed
  then have "?n0 + 1 \<le> 2 ^ (?k + 53)" by linarith
  then have "real (?n0 + 1) \<le> real (2 ^ (?k + 53))"
    by (simp only: of_nat_le_iff)
  moreover have "N < real (?n0 + 1)"
    using assms by simp linarith
  ultimately have "N < 2 ^ (?k + 53)" by simp
  then have "N / 2 ^ ?k < 2 ^ 53"
    by (simp add: power_add divide_less_eq mult.commute)
  then have "N / 2 ^ ?k \<le> of_int (2 ^ 53)" by simp
  from round_even_le [OF this] have m: "?m \<le> 2 ^ 53" by simp
  show ?thesis
  proof (cases "?m = 2 ^ 53")
    case True
    then have "round_scaled N = 2 ^ (?k + 53)"
      unfolding r by (simp add: power_add)
    moreover have "ilog2 (2 ^ (?k + 53)) = ?k + 53"
      by (rule ilog2_unique) simp_all
    moreover have "?k + 53 - 52 = Suc ?k" by simp
    moreover have "(2::nat) ^ Suc ?k dvd 2 ^ (?k + 53)"
      by (rule le_imp_power_dvd) simp
    ultimately show ?thesis
      by (simp only:)
  next
    case False
    with m have lt: "?m < 2 ^ 53" by simp
    show ?thesis
    proof (cases "0 < round_scaled N")
      case True
      from lt have "?m * 2 ^ ?k < 2 ^ 53 * 2 ^ ?k" by simp
      then have "round_scaled N < 2 ^ (?k + 53)"
        unfolding r by (simp add: power_add)
      from ilog2_less [OF this True] have "ilog2 (round_scaled N) - 52 \<le> ?k" by simp
      then have "(2::nat) ^ (ilog2 (round_scaled N) - 52) dvd 2 ^ ?k"
        by (rule le_imp_power_dvd)
      then show ?thesis
        unfolding r by (rule dvd_mult)
    next
      case False
      then show ?thesis by simp
    qed
  qed
qed

lemma round_scaled_0: "round_scaled 0 = 0"
  by (simp add: round_scaled_def ilog2.simps [of 0] round_even_def)

text \<open>The magnitude of a rounded number, in units.\<close>

lemma round_double_Finite:
  assumes "round_double x = Finite z"
  shows "round_scaled (\<bar>x\<bar> * 2 ^ 1074) < 2 ^ 2098"
    and "z = sgn x * real (round_scaled (\<bar>x\<bar> * 2 ^ 1074)) / 2 ^ 1074"
    and "\<bar>z\<bar> * 2 ^ 1074 = real (round_scaled (\<bar>x\<bar> * 2 ^ 1074))"
proof -
  from assms show 1: "round_scaled (\<bar>x\<bar> * 2 ^ 1074) < 2 ^ 2098"
    and 2: "z = sgn x * real (round_scaled (\<bar>x\<bar> * 2 ^ 1074)) / 2 ^ 1074"
    by (auto simp: round_double_def Let_def split: if_splits)
  show "\<bar>z\<bar> * 2 ^ 1074 = real (round_scaled (\<bar>x\<bar> * 2 ^ 1074))"
  proof (cases "x = 0")
    case True
    with 2 show ?thesis by (simp add: round_scaled_0)
  next
    case False
    then have "\<bar>sgn x\<bar> = 1" by (simp add: abs_sgn_eq)
    with 2 show ?thesis by (simp add: abs_mult del: power_numeral)
  qed
qed

text \<open>Rounding twice is rounding once.\<close>

lemma round_double_idem:
  assumes "round_double x = Finite z"
  shows "round_double z = Finite z"
proof -
  let ?m = "round_scaled (\<bar>x\<bar> * 2 ^ 1074)"
  note f = round_double_Finite [OF assms]
  have "round_scaled (real ?m) = ?m"
    by (intro round_scaled_exact round_scaled_closed) simp
  with f(3) have m: "round_scaled (\<bar>z\<bar> * 2 ^ 1074) = ?m" by simp
  have "sgn z * real ?m = sgn x * real ?m"
  proof (cases "?m = 0")
    case True
    then show ?thesis by simp
  next
    case False
    then have "0 < real ?m / 2 ^ 1074" by (simp del: power_numeral)
    then have "sgn (sgn x * (real ?m / 2 ^ 1074)) = sgn x"
      by (simp only: sgn_mult sgn_sgn sgn_pos mult_1_right)
    with f(2) show ?thesis by (simp del: power_numeral)
  qed
  with f(1,2) m show ?thesis
    by (simp add: round_double_def Let_def)
qed

text \<open>An integer of magnitude up to \<open>2\<^sup>5\<^sup>3\<close> is a \<^verbatim>\<open>double\<close>.\<close>

lemma round_double_int:
  assumes "x \<in> \<int>" and "\<bar>x\<bar> \<le> 9007199254740992"
  shows "round_double x = Finite x"
proof -
  from assms(1) obtain n where n: "\<bar>x\<bar> = real n"
    by (metis Ints_abs Ints_cases abs_ge_zero of_int_0_le_iff zero_le_imp_eq_int of_int_of_nat_eq)
  with assms(2) have le: "n \<le> 2 ^ 53" by simp
  let ?N = "n * 2 ^ 1074"
  have N: "\<bar>x\<bar> * 2 ^ 1074 = real ?N"
    by (simp add: n)
  have "2 ^ (ilog2 ?N - 52) dvd ?N"
  proof (cases "n = 2 ^ 53")
    case True
    then have e: "?N = 2 ^ 1127" by (simp add: power_add [symmetric])
    have "ilog2 (2 ^ 1127) = 1127"
      by (rule ilog2_unique) simp_all
    then show ?thesis
      unfolding e by (simp add: le_imp_power_dvd)
  next
    case False
    with le have lt: "n < 2 ^ 53" by simp
    show ?thesis
    proof (cases "0 < n")
      case True
      from lt have "?N < 2 ^ 53 * 2 ^ 1074" by simp
      then have "?N < 2 ^ 1127" by (simp add: power_add [symmetric])
      from ilog2_less [OF this] True have "ilog2 ?N - 52 \<le> 1074" by simp
      then have "(2::nat) ^ (ilog2 ?N - 52) dvd 2 ^ 1074"
        by (rule le_imp_power_dvd)
      then show ?thesis by (rule dvd_mult)
    next
      case False
      then show ?thesis by simp
    qed
  qed
  then have r: "round_scaled (real ?N) = ?N"
    by (rule round_scaled_exact)
  from le have "?N \<le> 2 ^ 53 * 2 ^ 1074" by simp
  also have "\<dots> < (2::nat) ^ 2098" by (simp add: power_add [symmetric])
  finally have "\<not> 2 ^ 2098 \<le> ?N" by simp
  moreover have "sgn x * real ?N / 2 ^ 1074 = x"
    using n mult_sgn_abs [of x] by (simp del: power_numeral)
  ultimately show ?thesis
    unfolding round_double_def N r by (simp only: Let_def if_False)
qed

text \<open>
  A positive number can vanish in an addition: \<open>2\<^sup>5\<^sup>3 + 1\<close> lies halfway between the
  \<^verbatim>\<open>double\<close>s \<open>2\<^sup>5\<^sup>3\<close> and \<open>2\<^sup>5\<^sup>3 + 2\<close> and is rounded to the first, whose significand is
  even.
\<close>

lemma round_double_absorbs: "round_double 9007199254740993 = Finite 9007199254740992"
proof -
  let ?N = "9007199254740993 * 2 ^ 1074 :: nat"
  have N: "\<bar>9007199254740993 :: real\<bar> * 2 ^ 1074 = real ?N" by simp
  have fl: "nat \<lfloor>real ?N\<rfloor> = ?N" by (simp only: floor_of_nat nat_int)
  have "(2::nat) ^ 1127 \<le> 9007199254740993 * 2 ^ 1074"
  proof -
    have "(2::nat) ^ 1127 = 9007199254740992 * 2 ^ 1074" by (simp add: power_add [symmetric])
    then show ?thesis by simp
  qed
  moreover have "9007199254740993 * 2 ^ 1074 < (2::nat) ^ Suc 1127"
  proof -
    have "(2::nat) ^ Suc 1127 = 18014398509481984 * 2 ^ 1074" by (simp add: power_add [symmetric])
    then show ?thesis by simp
  qed
  ultimately have il: "ilog2 ?N = 1127" by (rule ilog2_unique)
  have q: "real ?N / 2 ^ 1075 = 9007199254740993 / 2"
  proof -
    have "(2::real) ^ 1075 = 2 * 2 ^ 1074" by simp
    then show ?thesis by simp
  qed
  have re: "nat (round_even (9007199254740993 / 2)) = 4503599627370496"
    by (simp add: round_even_def Let_def)
  have k: "1127 - 52 = (1075::nat)" by simp
  have rs: "round_scaled (real ?N) = 4503599627370496 * 2 ^ 1075"
    unfolding round_scaled_def fl il by (simp only: Let_def k q re)
  have lt: "\<not> (2::nat) ^ 2098 \<le> 4503599627370496 * 2 ^ 1075"
  proof -
    have "(4503599627370496::nat) * 2 ^ 1075 = 2 ^ 1127" by (simp add: power_add [symmetric])
    then show ?thesis by simp
  qed
  have v: "sgn (9007199254740993 :: real) * real (4503599627370496 * 2 ^ 1075) / 2 ^ 1074
        = 9007199254740992"
  proof -
    have "(2::real) ^ 1075 = 2 * 2 ^ 1074" by simp
    then show ?thesis by simp
  qed
  show ?thesis
    unfolding round_double_def N rs using lt v by (simp only: Let_def if_False)
qed

subsection \<open>Costs that are not negative\<close>

text \<open>
  The values a g-cost takes when the search adds costs that are not negative: \<open>+\<infinity>\<close>, or
  a \<^verbatim>\<open>double\<close> that is not negative.
\<close>

definition g_ok :: "double \<Rightarrow> bool" where
  "g_ok d = (d = PlusInf \<or> (\<exists>x. d = Finite x \<and> 0 \<le> x \<and> round_double x = Finite x))"

lemma g_ok_0: "g_ok (Finite 0)"
  by (simp add: g_ok_def round_double_int)

lemma dle_Finite_0: "dle (Finite 0) c \<longleftrightarrow> c = PlusInf \<or> (\<exists>y. c = Finite y \<and> 0 \<le> y)"
  by (cases c) (auto simp: dle_def deq_def)

lemma round_double_above:
  assumes x: "round_double x = Finite x" and x0: "0 \<le> x" and le: "x \<le> y"
  shows "round_double y = PlusInf
       \<or> (\<exists>z. round_double y = Finite z \<and> x \<le> z \<and> round_double z = Finite z)"
proof (cases "round_double y")
  case (Finite z)
  let ?mx = "round_scaled (\<bar>x\<bar> * 2 ^ 1074)"
  let ?my = "round_scaled (\<bar>y\<bar> * 2 ^ 1074)"
  note fx = round_double_Finite [OF x]
  note fy = round_double_Finite [OF Finite]
  have "2 ^ (ilog2 ?mx - 52) dvd ?mx"
    by (rule round_scaled_closed) simp
  moreover have "real ?mx \<le> \<bar>y\<bar> * 2 ^ 1074"
  proof -
    from x0 le have "\<bar>x\<bar> \<le> \<bar>y\<bar>" by simp
    then have "\<bar>x\<bar> * 2 ^ 1074 \<le> \<bar>y\<bar> * 2 ^ 1074"
      by (rule mult_right_mono) (rule zero_le_power, simp)
    with fx(3) show ?thesis by (simp only:)
  qed
  ultimately have m: "?mx \<le> ?my"
    by (rule round_scaled_above)
  have u: "(0::real) < 2 ^ 1074"
    by (rule zero_less_power) simp
  have "x \<le> z"
  proof (cases "y = 0")
    case True
    with x0 le have "x = 0" by simp
    moreover from True fy(2) have "z = 0" by (simp only: sgn_0 mult_zero_left div_0)
    ultimately show ?thesis by simp
  next
    case False
    with x0 le have "sgn y = 1" by simp
    with fy(2) have "z = real ?my / 2 ^ 1074" by (simp only: mult_1)
    with u have "0 \<le> z" by (simp only: zero_le_divide_iff) simp
    with fy(3) have "z * 2 ^ 1074 = real ?my" by (simp only: abs_of_nonneg)
    moreover from fx(3) x0 have "x * 2 ^ 1074 = real ?mx" by (simp only: abs_of_nonneg)
    moreover from m have "real ?mx \<le> real ?my" by (simp only: of_nat_le_iff)
    ultimately have "x * 2 ^ 1074 \<le> z * 2 ^ 1074"
      by (simp only:)
    with u show ?thesis by (simp only: mult_le_cancel_right_pos)
  qed
  with Finite round_double_idem [OF Finite] show ?thesis by simp
next
  case PlusInf
  then show ?thesis by simp
next
  case MinusInf
  then have "y < 0"
    unfolding round_double_def Let_def by (simp only: split: if_splits) simp_all
  with x0 le show ?thesis by simp
next
  case NaN
  then show ?thesis
    unfolding round_double_def Let_def by (simp only: split: if_splits) simp_all
qed

text \<open>
  Adding a cost that is not negative to a g-cost gives a g-cost that is not smaller. It
  need not be greater.
\<close>

lemma dadd_nonneg:
  assumes "g_ok g" and "dle (Finite 0) c"
  shows "g_ok (dadd g c) \<and> dle g (dadd g c)"
proof (cases g)
  case (Finite x)
  with assms(1) have x: "0 \<le> x" "round_double x = Finite x"
    by (simp_all add: g_ok_def)
  from assms(2) consider "c = PlusInf" | y where "c = Finite y" "0 \<le> y"
    by (auto simp: dle_Finite_0)
  then show ?thesis
  proof cases
    case 1
    with Finite show ?thesis by (simp add: g_ok_def dle_def)
  next
    case 2
    from round_double_above [OF x(2,1), of "x + y"] 2(2) x(1)
    show ?thesis
      unfolding Finite 2(1) by (auto simp: g_ok_def dle_def deq_def)
  qed
next
  case PlusInf
  from assms(2) have "dadd PlusInf c = PlusInf"
    by (auto simp: dle_Finite_0)
  with PlusInf show ?thesis
    by (simp add: g_ok_def dle_def deq_def)
next
  case MinusInf
  with assms(1) show ?thesis by (simp add: g_ok_def)
next
  case NaN
  with assms(1) show ?thesis by (simp add: g_ok_def)
qed



section \<open>The first-move bitset: capacity and operations\<close>


lemma fm_cup_fold_length:
  "length (fold (\<lambda>i acc. acc[i := (acc ! i) OR ((other :: fm_label) ! i)]) is l) = length l"
  by (induction "is" arbitrary: l) simp_all

lemma fm_cup_fold_nth:
  assumes "distinct is" and "\<forall>i \<in> set is. i < length l"
  shows "fold (\<lambda>i acc. acc[i := (acc ! i) OR ((other :: fm_label) ! i)]) is l ! k =
         (if k \<in> set is then (l ! k) OR (other ! k) else l ! k)"
  using assms
proof (induction "is" arbitrary: l)
  case Nil
  then show ?case by simp
next
  case (Cons i "is")
  have "fold (\<lambda>i acc. acc[i := (acc ! i) OR (other ! i)]) is (l[i := (l ! i) OR (other ! i)]) ! k =
        (if k \<in> set is then (l[i := (l ! i) OR (other ! i)] ! k) OR (other ! k)
         else l[i := (l ! i) OR (other ! i)] ! k)"
    using Cons.prems by (intro Cons.IH) simp_all
  then show ?case
    using Cons.prems by (auto simp: nth_list_update)
qed

lemma fm_cup_length: "length (fm_cup l other) = length l"
  by (simp add: fm_cup_def fm_cup_fold_length)

lemma fm_cup_nth:
  assumes "length l = FM_BYTES" and "k < FM_BYTES"
  shows "fm_cup l other ! k = (l ! k) OR (other ! k)"
  using fm_cup_fold_nth [of "[0..<FM_BYTES]" l other k] assms
  by (simp add: fm_cup_def)

lemma fm_intersect_fold:
  "(fold (\<lambda>i (retval :: 8 word). retval OR (((l :: fm_label) ! i) AND (other ! i))) is r \<noteq> 0) =
   (r \<noteq> 0 \<or> (\<exists>i \<in> set is. (l ! i) AND (other ! i) \<noteq> 0))"
  by (induction "is" arbitrary: r) (auto simp: or_eq_0_iff)

lemma byte_nonzero_iff: "((w :: 8 word) \<noteq> 0) = (\<exists>b < 8. bit w b)"
proof
  assume "w \<noteq> 0"
  then obtain b where "bit w b"
    by (auto simp: bit_eq_iff)
  moreover from this have "b < 8"
    using bit_imp_le_length [of w b] by simp
  ultimately show "\<exists>b < 8. bit w b" by blast
next
  assume "\<exists>b < 8. bit w b"
  then show "w \<noteq> 0" by auto
qed

lemma fm_index_split:
  "j < 256 \<Longrightarrow> j div 8 < 32 \<and> j mod 8 < (8 :: nat)"
  by auto

lemma fm_intersect_iff:
  "fm_intersect l other = (\<exists>j < 256. fm_test l j \<and> fm_test other j)"
proof -
  have "fm_intersect l other = (\<exists>i < 32. (l ! i) AND (other ! i) \<noteq> 0)"
    by (auto simp: fm_intersect_def fm_intersect_fold FM_BYTES_def)
  also have "\<dots> = (\<exists>i < 32. \<exists>b < 8. bit (l ! i) b \<and> bit (other ! i) b)"
    by (simp only: byte_nonzero_iff bit_and_iff)
  also have "\<dots> = (\<exists>j < 256. fm_test l j \<and> fm_test other j)"
  proof
    assume "\<exists>i < 32. \<exists>b < 8. bit (l ! i) b \<and> bit (other ! i) b"
    then obtain i b where ib: "i < 32" "b < 8" "bit (l ! i) b" "bit (other ! i) b"
      by blast
    then have "8 * i + b < 256" "(8 * i + b) div 8 = i" "(8 * i + b) mod 8 = b"
      by auto
    with ib show "\<exists>j < 256. fm_test l j \<and> fm_test other j"
      unfolding fm_test_def by metis
  next
    assume "\<exists>j < 256. fm_test l j \<and> fm_test other j"
    then obtain j where "j < 256" "fm_test l j" "fm_test other j" by blast
    then show "\<exists>i < 32. \<exists>b < 8. bit (l ! i) b \<and> bit (other ! i) b"
      unfolding fm_test_def using fm_index_split [of j] by blast
  qed
  finally show ?thesis .
qed

lemma fm_add_in_range:
  assumes "length l = FM_BYTES" and "move_id < 256"
  shows "fm_add move_id l = Some (l[move_id div 8 := (l ! (move_id div 8)) OR (push_bit (move_id mod 8) 1)])"
  using assms by (simp add: fm_add_def FM_BYTES_def Let_def)

lemma fm_add_out_of_range:
  assumes "length l = FM_BYTES" and "256 \<le> move_id"
  shows "fm_add move_id l = None"
  using assms by (simp add: fm_add_def FM_BYTES_def Let_def)

lemma fm_test_add:
  assumes len: "length l = FM_BYTES" and m: "move_id < 256" and j: "j < 256"
  shows "fm_test (l[move_id div 8 := (l ! (move_id div 8)) OR (push_bit (move_id mod 8) 1)]) j =
         (j = move_id \<or> fm_test l j)"
proof (cases "j div 8 = move_id div 8")
  case True
  have eq: "(j = move_id) = (j mod 8 = move_id mod 8)"
    using True by (metis div_mult_mod_eq)
  have "j mod 8 < 8" "move_id mod 8 < 8" by simp_all
  then have "bit (push_bit (move_id mod 8) (1 :: 8 word)) (j mod 8) = (j mod 8 = move_id mod 8)"
    by (auto simp: bit_simps)
  then show ?thesis
    using True len m eq
    by (auto simp: fm_test_def FM_BYTES_def bit_or_iff)
next
  case False
  then have "j \<noteq> move_id" by auto
  with False show ?thesis
    by (simp add: fm_test_def)
qed

text \<open>
  Claim C10. The first-move bitset has a fixed capacity of 32 bytes, that is 256 bits.
  For a label of that size: for every \<open>move_id < 256\<close>, \<open>add\<close> stays inside the array,
  keeps its size, sets bit \<open>move_id\<close> and leaves every other bit as it was; for every
  \<open>move_id \<ge> 256\<close> the write is past the end of the array (no defined result);
  \<open>cup\<close> is the bitwise union and \<open>intersect\<close> decides whether two labels share a bit,
  both over those 256 bits.
\<close>

theorem fm_label_capacity:
  assumes "length l = FM_BYTES" and "length other = FM_BYTES"
  shows "FM_BYTES * 8 = 256
       \<and> (if move_id < 256
          then \<exists>l'. fm_add move_id l = Some l' \<and> length l' = FM_BYTES
                 \<and> (\<forall>j < 256. fm_test l' j = (j = move_id \<or> fm_test l j))
          else fm_add move_id l = None)
       \<and> length (fm_cup l other) = FM_BYTES
       \<and> (\<forall>j < 256. fm_test (fm_cup l other) j = (fm_test l j \<or> fm_test other j))
       \<and> fm_intersect l other = (\<exists>j < 256. fm_test l j \<and> fm_test other j)"
proof -
  have cap: "FM_BYTES * 8 = 256"
    by (simp add: FM_BYTES_def)
  have add: "if move_id < 256
          then \<exists>l'. fm_add move_id l = Some l' \<and> length l' = FM_BYTES
                 \<and> (\<forall>j < 256. fm_test l' j = (j = move_id \<or> fm_test l j))
          else fm_add move_id l = None"
  proof (cases "move_id < 256")
    case True
    then show ?thesis
      using assms(1) fm_add_in_range [OF assms(1) True] fm_test_add [OF assms(1) True]
      by simp
  next
    case False
    then show ?thesis
      using fm_add_out_of_range [OF assms(1), of move_id] by simp
  qed
  have cup: "\<forall>j < 256. fm_test (fm_cup l other) j = (fm_test l j \<or> fm_test other j)"
  proof (intro allI impI)
    fix j :: nat
    assume "j < 256"
    then have "j div 8 < FM_BYTES"
      by (simp add: FM_BYTES_def)
    then show "fm_test (fm_cup l other) j = (fm_test l j \<or> fm_test other j)"
      using fm_cup_nth [OF assms(1)] by (simp add: fm_test_def bit_or_iff)
  qed
  show ?thesis
    using cap add cup fm_cup_length [of l other] assms(1) fm_intersect_iff [of l other]
    by simp
qed

theorem fm_label_capacity_witness:
  "length fm_label_init = FM_BYTES
   \<and> (\<exists>l'. fm_add 10 fm_label_init = Some l' \<and> fm_test l' 10 \<and> \<not> fm_test l' 11)
   \<and> fm_add 256 fm_label_init = None
   \<and> \<not> fm_intersect fm_label_init fm_label_init"
proof -
  have len: "length fm_label_init = FM_BYTES"
    by (simp add: fm_label_init_def)
  have zero: "\<not> fm_test fm_label_init j" if "j < 256" for j
    using that by (simp add: fm_test_def fm_label_init_def FM_BYTES_def)
  show ?thesis
    using fm_label_capacity [OF len len, of 10] fm_label_capacity [OF len len, of 256] len zero
    by auto
qed

section \<open>Expansion by direction of travel\<close>





section \<open>What the first-move hooks write\<close>









section \<open>The search engine: how a search ends\<close>

lemma peek_single: "peek p [x] = x"
  by (simp add: peek_def)

lemmas double_simps = round_double_int dsub_def deq_def dle_def

lemma search_loop_result:
  "search_loop a inst gx gy s = Inr (res, why, s') \<Longrightarrow>
   (res \<noteq> None) = (why = target_found)
   \<and> (res = None \<or> res = Some (get_target_id inst))
   \<and> why \<noteq> no_start_id
   \<and> (why = frontier_exhausted) = (open_list s' = [])
   \<and> (\<forall>target. res = Some target \<longrightarrow> target \<in> set (open_list s'))"
proof (induction a inst gx gy s rule: search_loop.induct)
  case (1 a inst gx gy s0)
  show ?case
  proof (cases "open_list s0 = []")
    case True
    with "1.prems" show ?thesis
      by (simp add: search_loop.simps [of a inst gx gy s0])
  next
    case ne: False
    define s where "s = s0\<lparr>nodes_touched := nodes_touched s0 + 1\<rparr>"
    have os: "open_list s = open_list s0"
      by (simp add: s_def)
    show ?thesis
    proof (cases "peek (pool s) (open_list s) = get_target_id inst
                  \<or> dless (cost_cutoff a) (get_f (pool s ! peek (pool s) (open_list s)))
                  \<or> exp_cutoff a \<le> nodes_expanded s")
      case True
      have "peek (pool s) (open_list s) \<in> set (open_list s0)"
        using ne os peek_in_open [of "open_list s" "pool s"] by simp
      with True "1.prems" ne os show ?thesis
        by (auto simp: search_loop.simps [of a inst gx gy s0] s_def Let_def split: if_splits)
    next
      case False
      with "1.prems" ne obtain s2 where e: "expand_current a inst gx gy s = Inr s2"
        and r: "search_loop a inst gx gy s2 = Inr (res, why, s')"
        by (auto simp: search_loop.simps [of a inst gx gy s0] s_def Let_def split: sum.splits)
      from False show ?thesis
        by (intro "1.IH" [OF ne s_def _ _ _ e r]) auto
    qed
  qed
qed

lemma search_run_result:
  assumes "search_run a q hs = Inr (res, why, s)"
  shows "(res \<noteq> None) = (why = target_found)"
proof (cases "generate_endpoints a q")
  case (Inl e)
  with assms show ?thesis by (simp add: search_run_def)
next
  case (Inr r)
  show ?thesis
  proof (cases r)
    case None
    with assms Inr show ?thesis by (auto simp: search_run_def Let_def)
  next
    case (Some r2)
    obtain inst start where "r2 = (inst, start)" by (cases r2)
    with assms Inr Some have "search_loop a inst (fst (get_xy a (get_target_id inst)))
        (snd (get_xy a (get_target_id inst))) (push_start a inst start (cleanup a hs))
        = Inr (res, why, s)"
      by (auto simp: search_run_def Let_def split: if_splits)
    from search_loop_result [OF this] show ?thesis by simp
  qed
qed

text \<open>
  Claim C4, as the code has it. With the expansion cutoff at 0 and both end points
  generated, the search expands nothing and returns at the first pass through the loop:
  the goal test comes first there, so the start node is returned when it is the target
  (a path of cost 0), and the null pointer is returned in every other case, by one of
  the two cutoff tests. No node is expanded in either case.
\<close>

theorem search_exp_cutoff_zero:
  assumes "exp_cutoff a = 0"
    and "generate_endpoints a q = Inr (Some (inst, start))"
    and "start < get_nodes_pool_size a"
  shows "search a q hs = Inr (if start = get_target_id inst then Some start else None)
       \<and> search_exit a q hs =
           Inr (if start = get_target_id inst then target_found
                else if dless (cost_cutoff a)
                          (heuristic_h a (fst (get_xy a (get_start_id inst)))
                            (snd (get_xy a (get_start_id inst)))
                            (fst (get_xy a (get_target_id inst)))
                            (snd (get_xy a (get_target_id inst))))
                  then cost_cutoff_reached
                else exp_cutoff_reached)
       \<and> (\<exists>res why s. search_run a q hs = Inr (res, why, s) \<and> nodes_expanded s = 0)"
proof -
  let ?s1 = "push_start a inst start (cleanup a hs)"
  have len: "length (pool (cleanup a hs)) = get_nodes_pool_size a"
    by (simp add: cleanup_def fresh_pool_def)
  have o: "open_list ?s1 = [start]"
    by (simp add: push_start_def Let_def)
  have f: "get_f (pool ?s1 ! start) =
        heuristic_h a (fst (get_xy a (get_start_id inst))) (snd (get_xy a (get_start_id inst)))
          (fst (get_xy a (get_target_id inst))) (snd (get_xy a (get_target_id inst)))"
    using assms(3) len by (simp add: push_start_def Let_def init_def)
  have run: "search_run a q hs =
      search_loop a inst (fst (get_xy a (get_target_id inst)))
        (snd (get_xy a (get_target_id inst))) ?s1"
    using assms(2,3) len by (simp add: search_run_def Let_def)
  define s1 where "s1 = ?s1"
  have loop: "search_loop a inst gx gy s1 =
      (if start = get_target_id inst
       then Inr (Some start, target_found, s1\<lparr>nodes_touched := nodes_touched s1 + 1\<rparr>)
       else if dless (cost_cutoff a) (get_f (pool s1 ! start))
         then Inr (None, cost_cutoff_reached, s1\<lparr>nodes_touched := nodes_touched s1 + 1\<rparr>)
       else Inr (None, exp_cutoff_reached, s1\<lparr>nodes_touched := nodes_touched s1 + 1\<rparr>))" for gx gy
    using assms(1) o
    by (simp add: search_loop.simps [of a inst gx gy s1] s1_def [symmetric] Let_def peek_single)
  have ne: "nodes_expanded (push_start a inst x (cleanup a hs)) = 0" for x
    by (simp add: push_start_def cleanup_def Let_def)
  show ?thesis
    unfolding search_def search_exit_def run s1_def [symmetric] loop
    using f ne by (simp add: s1_def)
qed

lemmas ex_run_simps =
  search_def search_exit_def get_path_def search_run_def generate_endpoints_def cleanup_def
  push_start_def ex_astar_def ex_astar_zero_def ex_query_def fch_down_dfs_astar_def
  fch_generate_start_node_def fch_generate_target_node_def ex_policy_def ex_policy_zero_def
  ex_astar_big_def
  ex_to_graph_id_def fresh_pool_def fresh_node_def init_def relax_def set_expanded_def
  search_loop.simps expand_current_def pop_current_def process_neighbour_def peek_def
  expand_def up_travel_def Let_def upt_rec double_simps

text \<open>
  Claim C4 as stated fails: with the expansion cutoff at 0 and the start node equal to the
  target, the search returns the start node, not the null pointer.
\<close>

theorem search_exp_cutoff_zero_finds_start:
  "search (ex_astar 0) (ex_query 0 0) () = Inr (Some 0)"
  by (simp add: ex_run_simps)

theorem search_exp_cutoff_zero_witness:
  "exp_cutoff (ex_astar 0) = 0
   \<and> search (ex_astar 0) (ex_query 0 2) () = Inr None
   \<and> search_exit (ex_astar 0) (ex_query 0 2) () = Inr exp_cutoff_reached
   \<and> (\<exists>res why s. search_run (ex_astar 0) (ex_query 0 2) () = Inr (res, why, s)
         \<and> nodes_expanded s = 0)"
proof -
  have c: "exp_cutoff (ex_astar 0) = 0"
    by (simp add: ex_astar_def fch_down_dfs_astar_def)
  have e: "generate_endpoints (ex_astar 0) (ex_query 0 2)
           = Inr (Some (\<lparr>get_start_id = 0, get_target_id = 2, instance_search_id = 1\<rparr>, 0))"
    by (simp add: ex_run_simps)
  have n: "0 < get_nodes_pool_size (ex_astar 0)"
    by (simp add: ex_astar_def fch_down_dfs_astar_def ex_policy_def)
  from search_exp_cutoff_zero [OF c e n, of "()"] c show ?thesis
    by (simp add: ex_astar_def fch_down_dfs_astar_def)
qed

text \<open>
  On claim C6: a query whose start id, or whose target id, the adapter does not map. The
  policy returns the null pointer for it, and \<open>search\<close> calls \<open>get_id()\<close> on that
  pointer: no result is defined, where the claim has the search return no path.
\<close>

theorem search_unmapped_id_dereferences_null:
  "fch_generate_start_node ex_to_graph_id [0, 1, 2, 3] 4294967295 (ex_query 7 2) = Inr None
   \<and> search (ex_astar 4294967295) (ex_query 7 2) () = Inl undefined_behaviour
   \<and> search (ex_astar 4294967295) (ex_query 0 9) () = Inl undefined_behaviour"
  by (simp add: ex_run_simps)

section \<open>The search engine: the parent references\<close>

lemma process_neighbour_effect:
  assumes "process_neighbour a inst gx gy current nc s = Inr s'"
  shows "nodes_expanded s' = nodes_expanded s"
    and "fst nc < length (pool s)"
    and "(pool s' = pool s \<and> open_list s' = open_list s)
       \<or> (\<exists>nd. \<not> get_expanded (pool s ! fst nc)
              \<and> pool s' = (pool s)[fst nc := nd]
              \<and> get_parent nd = Some current \<and> \<not> get_expanded nd
              \<and> get_g nd = dadd (get_g (pool s ! current)) (snd nc)
              \<and> (open_list s' = open_list s
                  \<or> (fst nc \<notin> set (open_list s) \<and> open_list s' = open_list s @ [fst nc])))"
  using assms
  by (auto simp: process_neighbour_def Let_def init_def relax_def split: if_splits option.splits)

lemma parent_rel_update:
  assumes "n < length p" and "get_parent nd = Some c"
  shows "parent_rel (p[n := nd]) = insert (c, n) {(q, m). (q, m) \<in> parent_rel p \<and> m \<noteq> n}"
  using assms by (auto simp: parent_rel_def nth_list_update)

lemma parent_rel_same_parent:
  assumes "get_parent nd = get_parent (p ! c)"
  shows "parent_rel (p[c := nd]) = parent_rel p"
proof (cases "c < length p")
  case True
  have "get_parent (p[c := nd] ! b) = get_parent (p ! b)" if "b < length p" for b
    using that True assms by (cases "b = c") simp_all
  then show ?thesis
    by (auto simp: parent_rel_def)
next
  case False
  then have "p[c := nd] = p"
    by (intro list_update_beyond) simp
  then show ?thesis by simp
qed

lemma parents_ok_touched:
  "parents_ok P Q start t (s\<lparr>nodes_touched := k\<rparr>) = parents_ok P Q start t s"
  by (simp add: parents_ok_def)

lemma parents_ok_process_neighbour:
  assumes inv: "parents_ok P Q start t s"
    and cur: "current < length (pool s)" "get_expanded (pool s ! current)"
    and st: "get_expanded (pool s ! start)"
    and cost: "P (snd nc)"
    and cl: "\<And>g c. Q g \<Longrightarrow> P c \<Longrightarrow> Q (dadd g c)"
    and step: "process_neighbour a inst gx gy current nc s = Inr s'"
  shows "\<exists>t'. parents_ok P Q start t' s'"
proof -
  note eff = process_neighbour_effect [OF step]
  from eff(3) show ?thesis
  proof
    assume "pool s' = pool s \<and> open_list s' = open_list s"
    with inv eff(1) have "parents_ok P Q start t s'"
      by (simp add: parents_ok_def)
    then show ?thesis by blast
  next
    assume "\<exists>nd. \<not> get_expanded (pool s ! fst nc)
              \<and> pool s' = (pool s)[fst nc := nd]
              \<and> get_parent nd = Some current \<and> \<not> get_expanded nd
              \<and> get_g nd = dadd (get_g (pool s ! current)) (snd nc)
              \<and> (open_list s' = open_list s
                  \<or> (fst nc \<notin> set (open_list s) \<and> open_list s' = open_list s @ [fst nc]))"
    then obtain nd where unexp: "\<not> get_expanded (pool s ! fst nc)"
      and pool': "pool s' = (pool s)[fst nc := nd]"
      and par: "get_parent nd = Some current" and nd_unexp: "\<not> get_expanded nd"
      and g: "get_g nd = dadd (get_g (pool s ! current)) (snd nc)"
      and op: "open_list s' = open_list s
               \<or> (fst nc \<notin> set (open_list s) \<and> open_list s' = open_list s @ [fst nc])"
      by blast
    define n where "n = fst nc"
    define t' where "t' = t(n := nodes_expanded s)"
    have n: "n < length (pool s)"
      using eff(2) by (simp add: n_def)
    have n_cur: "n \<noteq> current" and n_start: "n \<noteq> start"
      using unexp cur(2) st by (auto simp: n_def)
    have nth': "pool s' ! i = (if i = n then nd else pool s ! i)" if "i < length (pool s)" for i
      using that pool' by (simp add: n_def nth_list_update)
    have len': "length (pool s') = length (pool s)"
      using pool' by simp
    have rel': "parent_rel (pool s') = insert (current, n) {(q, m). (q, m) \<in> parent_rel (pool s) \<and> m \<noteq> n}"
      unfolding pool' n_def [symmetric] using n par by (rule parent_rel_update)
    have i1: "distinct (open_list s)"
      and i2: "\<forall>i \<in> set (open_list s). i < length (pool s) \<and> \<not> get_expanded (pool s ! i)"
      and i3: "\<forall>q m. (q, m) \<in> parent_rel (pool s) \<longrightarrow>
            q < length (pool s) \<and> get_expanded (pool s ! q) \<and> t q < t m
            \<and> (\<exists>c. P c \<and> get_g (pool s ! m) = dadd (get_g (pool s ! q)) c)"
      and i4: "\<forall>i < length (pool s). get_expanded (pool s ! i) \<longrightarrow> t i < nodes_expanded s"
      and i5: "start < length (pool s)"
      and i6: "get_parent (pool s ! start) = None"
      and i8: "\<forall>i < length (pool s). (get_expanded (pool s ! i) \<or> i \<in> set (open_list s)) \<longrightarrow>
            i = start \<or> get_parent (pool s ! i) \<noteq> None"
      and i9: "\<forall>i < length (pool s). (get_expanded (pool s ! i) \<or> i \<in> set (open_list s)) \<longrightarrow>
            Q (get_g (pool s ! i))"
      using inv by (simp_all add: parents_ok_def)
    have o1: "distinct (open_list s')"
      using op i1 by auto
    have o2: "\<forall>i \<in> set (open_list s'). i < length (pool s') \<and> \<not> get_expanded (pool s' ! i)"
    proof
      fix i assume "i \<in> set (open_list s')"
      with op have "i = n \<or> i \<in> set (open_list s)"
        by (auto simp: n_def)
      with i2 n have il: "i < length (pool s)" and "i = n \<or> \<not> get_expanded (pool s ! i)"
        by auto
      with nd_unexp show "i < length (pool s') \<and> \<not> get_expanded (pool s' ! i)"
        by (auto simp: len' nth' [OF il])
    qed
    have o3: "\<forall>q m. (q, m) \<in> parent_rel (pool s') \<longrightarrow>
            q < length (pool s') \<and> get_expanded (pool s' ! q) \<and> t' q < t' m
            \<and> (\<exists>c. P c \<and> get_g (pool s' ! m) = dadd (get_g (pool s' ! q)) c)"
    proof (intro allI impI)
      fix q m assume "(q, m) \<in> parent_rel (pool s')"
      then consider (new) "q = current" "m = n"
        | (old) "(q, m) \<in> parent_rel (pool s)" "m \<noteq> n"
        unfolding rel' by auto
      then show "q < length (pool s') \<and> get_expanded (pool s' ! q) \<and> t' q < t' m
            \<and> (\<exists>c. P c \<and> get_g (pool s' ! m) = dadd (get_g (pool s' ! q)) c)"
      proof cases
        case new
        have "t current < nodes_expanded s"
          using i4 cur by simp
        with new cur n n_cur g cost show ?thesis
          by (auto simp: len' nth' t'_def)
      next
        case old
        with i3 have q: "q < length (pool s)" "get_expanded (pool s ! q)" "t q < t m"
          and c: "\<exists>c. P c \<and> get_g (pool s ! m) = dadd (get_g (pool s ! q)) c"
          by blast+
        from old(1) have m: "m < length (pool s)"
          by (simp add: parent_rel_def)
        from q(2) unexp have "q \<noteq> n"
          by (auto simp: n_def)
        with q c m old(2) show ?thesis
          by (simp add: len' nth' t'_def)
      qed
    qed
    have o4: "\<forall>i < length (pool s'). get_expanded (pool s' ! i) \<longrightarrow> t' i < nodes_expanded s'"
      using i4 nd_unexp eff(1) by (auto simp: len' nth' t'_def)
    have o6: "get_parent (pool s' ! start) = None" and o7: "get_expanded (pool s' ! start)"
      using i5 i6 st n_start by (simp_all add: nth')
    have o8: "\<forall>i < length (pool s'). (get_expanded (pool s' ! i) \<or> i \<in> set (open_list s')) \<longrightarrow>
            i = start \<or> get_parent (pool s' ! i) \<noteq> None"
    proof (intro allI impI)
      fix i assume il: "i < length (pool s')"
        and "get_expanded (pool s' ! i) \<or> i \<in> set (open_list s')"
      then have "i = n \<or> get_expanded (pool s ! i) \<or> i \<in> set (open_list s)"
        using op nd_unexp by (auto simp: len' nth' n_def split: if_splits)
      with i8 il par show "i = start \<or> get_parent (pool s' ! i) \<noteq> None"
        by (auto simp: len' nth')
    qed
    have "Q (get_g nd)"
      unfolding g using i9 cur cost by (intro cl) simp_all
    then have o9: "\<forall>i < length (pool s'). (get_expanded (pool s' ! i) \<or> i \<in> set (open_list s')) \<longrightarrow>
            Q (get_g (pool s' ! i))"
      using i9 op nd_unexp by (auto simp: len' nth' n_def split: if_splits)
    have "parents_ok P Q start t' s'"
      unfolding parents_ok_def using o1 o2 o3 o4 i5 o6 o7 o8 o9 by (simp add: len')
    then show ?thesis by blast
  qed
qed

lemma parents_ok_process_neighbours:
  assumes "\<forall>nc \<in> set ncs. P (snd nc)"
    and "parents_ok P Q start t s"
    and "current < length (pool s)" and "get_expanded (pool s ! current)"
    and "get_expanded (pool s ! start)"
    and "process_neighbours a inst gx gy current ncs s = Inr s'"
    and "\<forall>g c. Q g \<longrightarrow> P c \<longrightarrow> Q (dadd g c)"
  shows "\<exists>t'. parents_ok P Q start t' s'"
  using assms
proof (induction ncs arbitrary: s t)
  case Nil
  then show ?case by auto
next
  case (Cons nc ncs)
  from Cons.prems(6) obtain s1 where 1: "process_neighbour a inst gx gy current nc s = Inr s1"
    and 2: "process_neighbours a inst gx gy current ncs s1 = Inr s'"
    by (auto split: sum.splits)
  from Cons.prems(1) have c: "P (snd nc)" and cs: "\<forall>nc \<in> set ncs. P (snd nc)"
    by simp_all
  from Cons.prems(7) have cl: "\<And>g c. Q g \<Longrightarrow> P c \<Longrightarrow> Q (dadd g c)"
    by blast
  from parents_ok_process_neighbour [OF Cons.prems(2,3,4,5) c cl 1]
  obtain t1 where inv1: "parents_ok P Q start t1 s1" by blast
  note f = process_neighbour_frontier [OF 1]
  from f(1,2) Cons.prems(3,4,5)
  have "current < length (pool s1)" "get_expanded (pool s1 ! current)" "get_expanded (pool s1 ! start)"
    by simp_all
  from Cons.IH [OF cs inv1 this 2 Cons.prems(7)] show ?case .
qed

lemma parents_ok_pop_current:
  assumes inv: "parents_ok P Q start t s" and ne: "open_list s \<noteq> []"
  shows "parents_ok P Q start (t(fst (pop_current s) := nodes_expanded s)) (snd (pop_current s))"
    and "fst (pop_current s) < length (pool (snd (pop_current s)))"
    and "get_expanded (pool (snd (pop_current s)) ! fst (pop_current s))"
    and "get_expanded (pool (snd (pop_current s)) ! start)"
proof -
  define c where "c = peek (pool s) (open_list s)"
  define s1 where "s1 = snd (pop_current s)"
  define t' where "t' = t(c := nodes_expanded s)"
  have fst_pop: "fst (pop_current s) = c"
    by (simp add: pop_current_def c_def Let_def)
  have i1: "distinct (open_list s)"
    and i2: "\<forall>i \<in> set (open_list s). i < length (pool s) \<and> \<not> get_expanded (pool s ! i)"
    and i3: "\<forall>q m. (q, m) \<in> parent_rel (pool s) \<longrightarrow>
          q < length (pool s) \<and> get_expanded (pool s ! q) \<and> t q < t m
          \<and> (\<exists>c. P c \<and> get_g (pool s ! m) = dadd (get_g (pool s ! q)) c)"
    and i4: "\<forall>i < length (pool s). get_expanded (pool s ! i) \<longrightarrow> t i < nodes_expanded s"
    and i5: "start < length (pool s)"
    and i6: "get_parent (pool s ! start) = None"
    and i7: "get_expanded (pool s ! start) \<or> open_list s = [start]"
    and i8: "\<forall>i < length (pool s). (get_expanded (pool s ! i) \<or> i \<in> set (open_list s)) \<longrightarrow>
          i = start \<or> get_parent (pool s ! i) \<noteq> None"
    and i9: "\<forall>i < length (pool s). (get_expanded (pool s ! i) \<or> i \<in> set (open_list s)) \<longrightarrow>
          Q (get_g (pool s ! i))"
    using inv by (simp_all add: parents_ok_def)
  have c_open: "c \<in> set (open_list s)"
    unfolding c_def using ne by (rule peek_in_open)
  with i2 have c: "c < length (pool s)" and c_unexp: "\<not> get_expanded (pool s ! c)"
    by auto
  have pool1: "pool s1 = (pool s)[c := set_expanded True (pool s ! c)]"
    and open1: "open_list s1 = remove1 c (open_list s)"
    and ne1: "nodes_expanded s1 = nodes_expanded s + 1"
    by (simp_all add: s1_def pop_current_def c_def Let_def)
  have len1: "length (pool s1) = length (pool s)"
    by (simp add: pool1)
  have nth1: "pool s1 ! i = (if i = c then set_expanded True (pool s ! c) else pool s ! i)"
    if "i < length (pool s)" for i
    using that by (simp add: pool1 nth_list_update)
  have exp1: "get_expanded (pool s1 ! i) = (i = c \<or> get_expanded (pool s ! i))"
    and par1: "get_parent (pool s1 ! i) = get_parent (pool s ! i)"
    and g1: "get_g (pool s1 ! i) = get_g (pool s ! i)"
    if "i < length (pool s)" for i
    using that by (auto simp: nth1 set_expanded_def)
  have rel1: "parent_rel (pool s1) = parent_rel (pool s)"
    unfolding pool1 by (rule parent_rel_same_parent) (simp add: set_expanded_def)
  have set1: "set (open_list s1) = set (open_list s) - {c}"
    using i1 by (simp add: open1)
  have o1: "distinct (open_list s1)"
    using i1 by (simp add: open1)
  have o2: "\<forall>i \<in> set (open_list s1). i < length (pool s1) \<and> \<not> get_expanded (pool s1 ! i)"
    using i2 by (auto simp: set1 len1 exp1)
  have o3: "\<forall>q m. (q, m) \<in> parent_rel (pool s1) \<longrightarrow>
          q < length (pool s1) \<and> get_expanded (pool s1 ! q) \<and> t' q < t' m
          \<and> (\<exists>c. P c \<and> get_g (pool s1 ! m) = dadd (get_g (pool s1 ! q)) c)"
  proof (intro allI impI)
    fix q m assume "(q, m) \<in> parent_rel (pool s1)"
    then have qm: "(q, m) \<in> parent_rel (pool s)"
      by (simp add: rel1)
    with i3 have q: "q < length (pool s)" "get_expanded (pool s ! q)" "t q < t m"
      and cc: "\<exists>c. P c \<and> get_g (pool s ! m) = dadd (get_g (pool s ! q)) c"
      by blast+
    from qm have m: "m < length (pool s)"
      by (simp add: parent_rel_def)
    from q(2) c_unexp have qc: "q \<noteq> c" by auto
    from i4 q have "t q < nodes_expanded s" by simp
    with q cc m qc show "q < length (pool s1) \<and> get_expanded (pool s1 ! q) \<and> t' q < t' m
          \<and> (\<exists>c. P c \<and> get_g (pool s1 ! m) = dadd (get_g (pool s1 ! q)) c)"
      by (simp add: len1 exp1 g1 t'_def)
  qed
  have o4: "\<forall>i < length (pool s1). get_expanded (pool s1 ! i) \<longrightarrow> t' i < nodes_expanded s1"
    using i4 by (auto simp: len1 exp1 ne1 t'_def less_Suc_eq)
  have o6: "get_parent (pool s1 ! start) = None"
    using i5 i6 by (simp add: par1)
  have o7: "get_expanded (pool s1 ! start)"
  proof (cases "get_expanded (pool s ! start)")
    case True
    with i5 show ?thesis by (simp add: exp1)
  next
    case False
    with i7 have "open_list s = [start]" by simp
    then have "c = start" by (simp add: c_def peek_single)
    with i5 show ?thesis by (simp add: exp1)
  qed
  have o8: "\<forall>i < length (pool s1). (get_expanded (pool s1 ! i) \<or> i \<in> set (open_list s1)) \<longrightarrow>
          i = start \<or> get_parent (pool s1 ! i) \<noteq> None"
    using i8 c_open by (auto simp: len1 exp1 par1 set1)
  have o9: "\<forall>i < length (pool s1). (get_expanded (pool s1 ! i) \<or> i \<in> set (open_list s1)) \<longrightarrow>
          Q (get_g (pool s1 ! i))"
    using i9 c_open by (auto simp: len1 exp1 g1 set1)
  show "parents_ok P Q start (t(fst (pop_current s) := nodes_expanded s)) (snd (pop_current s))"
    unfolding parents_ok_def fst_pop s1_def [symmetric] t'_def [symmetric]
    using o1 o2 o3 o4 i5 o6 o7 o8 o9 by (simp add: len1)
  show "fst (pop_current s) < length (pool (snd (pop_current s)))"
    unfolding fst_pop s1_def [symmetric] using c by (simp add: len1)
  show "get_expanded (pool (snd (pop_current s)) ! fst (pop_current s))"
    unfolding fst_pop s1_def [symmetric] using c by (simp add: exp1)
  show "get_expanded (pool (snd (pop_current s)) ! start)"
    unfolding s1_def [symmetric] by (rule o7)
qed

lemma parents_ok_expand_current:
  assumes "costs_in a P" and "parents_ok P Q start t s" and "open_list s \<noteq> []"
    and "expand_current a inst gx gy s = Inr s'"
    and "\<forall>g c. Q g \<longrightarrow> P c \<longrightarrow> Q (dadd g c)"
  shows "\<exists>t'. parents_ok P Q start t' s'"
proof -
  from assms(4) obtain ncs where
    e: "expander_expand a (pool (snd (pop_current s)) ! fst (pop_current s)) inst = Inr ncs"
    and p: "process_neighbours a inst gx gy (fst (pop_current s)) ncs (snd (pop_current s)) = Inr s'"
    by (auto simp: expand_current_def Let_def split: sum.splits)
  from assms(1) e have costs: "\<forall>nc \<in> set ncs. P (snd nc)"
    unfolding costs_in_def by blast
  from parents_ok_process_neighbours [OF costs parents_ok_pop_current [OF assms(2,3)] p assms(5)]
  show ?thesis .
qed

lemma parents_ok_search_loop:
  "parents_ok P Q start t s \<Longrightarrow> search_loop a inst gx gy s = Inr (res, why, s')
   \<Longrightarrow> costs_in a P \<Longrightarrow> \<forall>g c. Q g \<longrightarrow> P c \<longrightarrow> Q (dadd g c)
   \<Longrightarrow> \<exists>t'. parents_ok P Q start t' s'"
proof (induction a inst gx gy s arbitrary: t rule: search_loop.induct)
  case (1 a inst gx gy s0)
  show ?case
  proof (cases "open_list s0 = []")
    case True
    with "1.prems" show ?thesis
      by (auto simp: search_loop.simps [of a inst gx gy s0])
  next
    case ne: False
    define s where "s = s0\<lparr>nodes_touched := nodes_touched s0 + 1\<rparr>"
    have inv: "parents_ok P Q start t s"
      using "1.prems"(1) by (simp add: s_def parents_ok_touched)
    have ne': "open_list s \<noteq> []"
      using ne by (simp add: s_def)
    show ?thesis
    proof (cases "peek (pool s) (open_list s) = get_target_id inst
                  \<or> dless (cost_cutoff a) (get_f (pool s ! peek (pool s) (open_list s)))
                  \<or> exp_cutoff a \<le> nodes_expanded s")
      case True
      with "1.prems"(2) ne have "s' = s"
        by (auto simp: search_loop.simps [of a inst gx gy s0] s_def Let_def split: if_splits)
      with inv show ?thesis by auto
    next
      case False
      with "1.prems"(2) ne obtain s2 where e: "expand_current a inst gx gy s = Inr s2"
        and r: "search_loop a inst gx gy s2 = Inr (res, why, s')"
        by (auto simp: search_loop.simps [of a inst gx gy s0] s_def Let_def split: sum.splits)
      from parents_ok_expand_current [OF "1.prems"(3) inv ne' e "1.prems"(4)]
      obtain t2 where inv2: "parents_ok P Q start t2 s2" ..
      from False show ?thesis
        by (intro "1.IH" [OF ne s_def _ _ _ e inv2 r "1.prems"(3,4)]) auto
    qed
  qed
qed

lemma parents_ok_push_start:
  assumes "start < get_nodes_pool_size a" and "Q (Finite 0)"
  shows "parents_ok P Q start t (push_start a inst start (cleanup a hs))"
proof -
  let ?s = "push_start a inst start (cleanup a hs)"
  have len: "length (pool ?s) = get_nodes_pool_size a"
    by (simp add: push_start_def cleanup_def fresh_pool_def Let_def)
  have node: "get_parent (pool ?s ! i) = None \<and> \<not> get_expanded (pool ?s ! i)"
    if "i < get_nodes_pool_size a" for i
    using that
    by (cases "i = start")
       (simp_all add: push_start_def cleanup_def fresh_pool_def fresh_node_def init_def Let_def)
  have rel: "parent_rel (pool ?s) = {}"
    using node by (auto simp: parent_rel_def len)
  have op: "open_list ?s = [start]"
    by (simp add: push_start_def Let_def)
  have g: "get_g (pool ?s ! start) = Finite 0"
    using assms(1) by (simp add: push_start_def cleanup_def fresh_pool_def init_def Let_def)
  show ?thesis
    unfolding parents_ok_def rel op using assms node g by (simp add: len)
qed

lemma parent_rel_cleanup: "parent_rel (pool (cleanup a hs)) = {}"
  by (auto simp: parent_rel_def cleanup_def fresh_pool_def fresh_node_def)

lemma search_run_parents_ok:
  assumes "search_run a qry hs = Inr (res, why, s)"
    and "generate_endpoints a qry = Inr (Some (inst, start))"
    and "costs_in a P"
    and "Q (Finite 0)" and "\<forall>g c. Q g \<longrightarrow> P c \<longrightarrow> Q (dadd g c)"
  shows "\<exists>t. parents_ok P Q start t s"
proof -
  from assms(1,2) have st: "start < get_nodes_pool_size a"
    and loop: "search_loop a inst (fst (get_xy a (get_target_id inst)))
        (snd (get_xy a (get_target_id inst))) (push_start a inst start (cleanup a hs))
        = Inr (res, why, s)"
    by (auto simp: search_run_def Let_def cleanup_def fresh_pool_def split: if_splits)
  from parents_ok_search_loop [OF parents_ok_push_start [where Q = Q, OF st assms(4)] loop assms(3,5)]
  show ?thesis .
qed

lemma parents_ok_wf:
  assumes "parents_ok P Q start t s"
  shows "wf (parent_rel (pool s))"
proof (rule wf_subset [OF wf_measure])
  show "parent_rel (pool s) \<subseteq> measure t"
    using assms by (auto simp: parents_ok_def)
qed

lemma parents_ok_rooted:
  assumes inv: "parents_ok P Q start t s"
  shows "(\<exists>q. (q, n) \<in> parent_rel (pool s)) \<longrightarrow> (start, n) \<in> (parent_rel (pool s))\<^sup>+"
proof (induction n rule: wf_induct_rule [OF parents_ok_wf [OF inv]])
  case (1 n)
  show ?case
  proof
    assume "\<exists>q. (q, n) \<in> parent_rel (pool s)"
    then obtain q where qn: "(q, n) \<in> parent_rel (pool s)" ..
    with inv have q: "q < length (pool s)" "get_expanded (pool s ! q)"
      by (auto simp: parents_ok_def)
    with inv have "q = start \<or> get_parent (pool s ! q) \<noteq> None"
      by (simp add: parents_ok_def)
    then show "(start, n) \<in> (parent_rel (pool s))\<^sup>+"
    proof
      assume "q = start"
      with qn show ?thesis by auto
    next
      assume "get_parent (pool s ! q) \<noteq> None"
      with q(1) have "\<exists>q'. (q', q) \<in> parent_rel (pool s)"
        by (auto simp: parent_rel_def)
      with "1.IH" [OF qn] have "(start, q) \<in> (parent_rel (pool s))\<^sup>+"
        by simp
      with qn show ?thesis by (auto intro: trancl_into_trancl)
    qed
  qed
qed

lemma follow_parents_ends:
  assumes "wf (parent_rel p)"
    and "\<forall>q n. (q, n) \<in> parent_rel p \<longrightarrow> q < length p"
  shows "c < length p \<longrightarrow> (\<forall>path. \<exists>r. follow_parents p (Some c) path = Some r)"
proof (induction c rule: wf_induct_rule [OF assms(1)])
  case (1 c)
  show ?case
  proof (intro impI allI)
    fix path
    assume c: "c < length p"
    show "\<exists>r. follow_parents p (Some c) path = Some r"
    proof (cases "get_parent (p ! c)")
      case None
      then show ?thesis
        by (simp add: follow_parents.simps [of p "Some c"] follow_parents.simps [of p None])
    next
      case (Some q)
      with c have qc: "(q, c) \<in> parent_rel p"
        by (simp add: parent_rel_def)
      with assms(2) have "q < length p" by blast
      with "1.IH" [OF qc] have "\<exists>r. follow_parents p (Some q) (get_id (p ! c) # path) = Some r"
        by blast
      with Some show ?thesis
        by (simp add: follow_parents.simps [of p "Some c"])
    qed
  qed
qed

lemma search_run_target_in_pool:
  assumes "search_run a qry hs = Inr (Some target, why, s)"
  shows "target < length (pool s)"
proof -
  from assms obtain inst start where ge: "generate_endpoints a qry = Inr (Some (inst, start))"
    by (auto simp: search_run_def Let_def split: sum.splits option.splits)
  with assms have "search_loop a inst (fst (get_xy a (get_target_id inst)))
        (snd (get_xy a (get_target_id inst))) (push_start a inst start (cleanup a hs))
        = Inr (Some target, why, s)"
    by (auto simp: search_run_def Let_def split: if_splits)
  from search_loop_result [OF this] have "target \<in> set (open_list s)"
    by blast
  moreover have "costs_in a (\<lambda>c. True)"
    by (simp add: costs_in_def)
  from search_run_parents_ok [OF assms ge this, of "\<lambda>g. True"] obtain t
    where "parents_ok (\<lambda>c. True) (\<lambda>g. True) start t s" by auto
  ultimately show ?thesis
    by (simp add: parents_ok_def)
qed

lemma follow_parents_suffix:
  assumes "follow_parents p cur path = Some r"
  shows "\<exists>pre. r = pre @ path"
proof (rule follow_parents.raw_induct [where P = "\<lambda>p cur path r. \<exists>pre. r = pre @ path", OF _ assms])
  fix follow and p :: "search_node list" and cur path r
  assume ih: "\<And>p cur path r. follow p cur path = Some r \<Longrightarrow> \<exists>pre. r = pre @ path"
    and eq: "(case cur of None \<Rightarrow> Some path
              | Some c \<Rightarrow> follow p (get_parent (p ! c)) (get_id (p ! c) # path)) = Some r"
  show "\<exists>pre. r = pre @ path"
  proof (cases cur)
    case None
    with eq show ?thesis by simp
  next
    case (Some c)
    with eq have "follow p (get_parent (p ! c)) (get_id (p ! c) # path) = Some r"
      by simp
    from ih [OF this] obtain pre where "r = pre @ get_id (p ! c) # path" ..
    then have "r = (pre @ [get_id (p ! c)]) @ path" by simp
    then show ?thesis ..
  qed
qed

lemma follow_parents_nonempty:
  assumes "follow_parents p (Some c) path = Some r"
  shows "r \<noteq> []"
proof -
  from assms have "follow_parents p (get_parent (p ! c)) (get_id (p ! c) # path) = Some r"
    by (simp add: follow_parents.simps [of p "Some c"])
  from follow_parents_suffix [OF this] show ?thesis by auto
qed

text \<open>
  \<open>get_path\<close> returns after every search that returns: the walk along the parent
  references ends. The path is not empty when a target was found.
\<close>

lemma get_path_returns:
  assumes "search_run a qry hs = Inr (res, why, s)"
  shows "\<exists>path. get_path a qry hs = Some (Inr path) \<and> (res \<noteq> None \<longrightarrow> path \<noteq> [])"
proof (cases res)
  case None
  with assms show ?thesis by (simp add: get_path_def)
next
  case (Some target)
  with assms obtain inst start where ge: "generate_endpoints a qry = Inr (Some (inst, start))"
    by (auto simp: search_run_def Let_def split: sum.splits option.splits)
  have "costs_in a (\<lambda>c. True)"
    by (simp add: costs_in_def)
  from search_run_parents_ok [OF assms ge this, of "\<lambda>g. True"] obtain t
    where inv: "parents_ok (\<lambda>c. True) (\<lambda>g. True) start t s" by auto
  have wf: "wf (parent_rel (pool s))"
    using inv by (rule parents_ok_wf)
  have rng: "\<forall>q n. (q, n) \<in> parent_rel (pool s) \<longrightarrow> q < length (pool s)"
    using inv by (simp add: parents_ok_def)
  from Some assms have "target < length (pool s)"
    by (intro search_run_target_in_pool) simp
  with follow_parents_ends [OF wf rng, of target]
  obtain r where r: "follow_parents (pool s) (Some target) [] = Some r"
    by blast
  from follow_parents_nonempty [OF r] r assms Some show ?thesis
    by (simp add: get_path_def)
qed

lemma down_neighbours_costs:
  "nc \<in> set (down_neighbours filter_fn c k es) \<Longrightarrow> snd nc \<in> wt ` set es"
  by (induction es arbitrary: k) (auto split: if_splits)

text \<open>The costs the down-DFS policy hands out are weights of edges of the node expanded.\<close>

lemma expand_costs:
  assumes "expand p filter_fn current = Inr ncs" and "nc \<in> set ncs"
  shows "get_id current < length (policy_g p)
       \<and> snd nc \<in> wt ` set (policy_g p ! get_id current)"
proof (cases "up_travel (policy_rank p) current")
  case True
  with assms show ?thesis
    by (auto simp: expand_def Let_def split: if_splits)
next
  case False
  with assms have len: "get_id current < length (policy_g p)"
    and "nc \<in> set (down_neighbours filter_fn (get_id current) 0
                 (drop (policy_down_heads p ! get_id current) (policy_g p ! get_id current)))"
    by (auto simp: expand_def Let_def split: if_splits)
  from down_neighbours_costs [OF this(2)] len show ?thesis
    by (auto dest: in_set_dropD)
qed

lemma ex_costs_nonneg: "costs_in (ex_astar exp_cut) (\<lambda>c. dle (Finite 0) c)"
proof -
  have "dle (Finite 0) (snd nc)"
    if "expand ex_policy (\<lambda>n i. False) current = Inr ncs" and "nc \<in> set ncs"
    for current ncs nc
  proof -
    from expand_costs [OF that]
    have "get_id current < 4" "snd nc \<in> wt ` set (policy_g ex_policy ! get_id current)"
      by (simp_all add: ex_policy_def)
    then have "get_id current = 0 \<or> get_id current = 1 \<or> get_id current = 2
             \<or> get_id current = 3"
      by auto
    with \<open>snd nc \<in> wt ` set (policy_g ex_policy ! get_id current)\<close>
    have "snd nc = Finite 1"
      by (auto simp: ex_policy_def)
    then show ?thesis
      by (simp add: dle_def)
  qed
  then show ?thesis
    unfolding costs_in_def ex_astar_def fch_down_dfs_astar_def by auto
qed

text \<open>
  Claim C9 as stated fails, in two ways. Over an edge of weight 0 a node is given a
  parent whose g-cost equals its own: in the search from node 0 to node 2 of the example
  hierarchy with the edge 0 \<open>\<rightarrow>\<close> 1 of weight 0, node 1 ends with parent 0 and both have
  g = 0. And a positive cost can be lost to rounding: when the policy hands out the step
  0 \<open>\<rightarrow>\<close> 1 at the cost \<open>2\<^sup>5\<^sup>3\<close> and the step 1 \<open>\<rightarrow>\<close> 2 at the cost 1, node 2 ends with
  parent 1, and both have g = \<open>2\<^sup>5\<^sup>3\<close>.
\<close>

theorem parent_with_equal_g:
  "search_run ex_astar_zero (ex_query 0 2) ()
     = Inr (Some 2, target_found,
            \<lparr>pool = [\<lparr>get_id = 0, get_g = Finite 0, get_f = Finite 0, get_parent = None,
                       get_expanded = True, get_search_id = 1\<rparr>,
                     \<lparr>get_id = 1, get_g = Finite 0, get_f = Finite 0, get_parent = Some 0,
                       get_expanded = True, get_search_id = 1\<rparr>,
                     \<lparr>get_id = 2, get_g = Finite 1, get_f = Finite 1, get_parent = Some 1,
                       get_expanded = False, get_search_id = 1\<rparr>,
                     fresh_node 3],
             open_list = [2], nodes_expanded = 2, nodes_generated = 2, nodes_touched = 5,
             heap_ops = 4, hook_state = ()\<rparr>)
   \<and> \<not> dless (get_g \<lparr>get_id = 0, get_g = Finite 0, get_f = Finite 0, get_parent = None,
                       get_expanded = True, get_search_id = 1\<rparr>)
               (get_g \<lparr>get_id = 1, get_g = Finite 0, get_f = Finite 0, get_parent = Some 0,
                       get_expanded = True, get_search_id = 1\<rparr>)
   \<and> search_run ex_astar_big (ex_query 0 2) ()
     = Inr (Some 2, target_found,
            \<lparr>pool = [\<lparr>get_id = 0, get_g = Finite 0, get_f = Finite 0, get_parent = None,
                       get_expanded = True, get_search_id = 1\<rparr>,
                     \<lparr>get_id = 1, get_g = Finite 9007199254740992,
                       get_f = Finite 9007199254740992, get_parent = Some 0,
                       get_expanded = True, get_search_id = 1\<rparr>,
                     \<lparr>get_id = 2, get_g = Finite 9007199254740992,
                       get_f = Finite 9007199254740992, get_parent = Some 1,
                       get_expanded = False, get_search_id = 1\<rparr>,
                     fresh_node 3],
             open_list = [2], nodes_expanded = 2, nodes_generated = 2, nodes_touched = 5,
             heap_ops = 4, hook_state = ()\<rparr>)
   \<and> expander_expand ex_astar_big
         \<lparr>get_id = 1, get_g = Finite 9007199254740992,
           get_f = Finite 9007199254740992, get_parent = Some 0,
           get_expanded = True, get_search_id = 1\<rparr>
         \<lparr>get_start_id = 0, get_target_id = 2, instance_search_id = 1\<rparr>
       = Inr [(2, Finite 1)]
   \<and> dless (Finite 0) (Finite 1)
   \<and> \<not> dless (get_g \<lparr>get_id = 1, get_g = Finite 9007199254740992,
                       get_f = Finite 9007199254740992, get_parent = Some 0,
                       get_expanded = True, get_search_id = 1\<rparr>)
               (get_g \<lparr>get_id = 2, get_g = Finite 9007199254740992,
                       get_f = Finite 9007199254740992, get_parent = Some 1,
                       get_expanded = False, get_search_id = 1\<rparr>)"
  by (simp add: ex_run_simps round_double_absorbs)

text \<open>
  Claim C9, as the code has it. In the state any search leaves, the parent references
  are well founded (following them from any node ends: no cycle); a parent is always an
  expanded node of the pool, and the g-cost of its child is the sum, rounded as a sum of
  \<^verbatim>\<open>double\<close>s is, of the parent's g-cost and a cost that the policy handed out; when the
  policy hands out costs that are not negative, no parent has a larger g-cost than its
  child; the start node has no parent and every node that has a parent descends from
  the start node; and the walk of \<open>get_path\<close> along the parent references ends.
\<close>

theorem search_parent_structure:
  assumes "search_run a qry hs = Inr (res, why, s)"
  shows "wf (parent_rel (pool s))
       \<and> (\<forall>q n. (q, n) \<in> parent_rel (pool s) \<longrightarrow> q < length (pool s) \<and> get_expanded (pool s ! q))
       \<and> (costs_in a P \<longrightarrow>
            (\<forall>q n. (q, n) \<in> parent_rel (pool s) \<longrightarrow>
               (\<exists>c. P c \<and> get_g (pool s ! n) = dadd (get_g (pool s ! q)) c)))
       \<and> (costs_in a (\<lambda>c. dle (Finite 0) c) \<longrightarrow>
            (\<forall>q n. (q, n) \<in> parent_rel (pool s) \<longrightarrow> dle (get_g (pool s ! q)) (get_g (pool s ! n))))
       \<and> (\<forall>inst start. generate_endpoints a qry = Inr (Some (inst, start)) \<longrightarrow>
            get_parent (pool s ! start) = None
            \<and> (\<forall>q n. (q, n) \<in> parent_rel (pool s) \<longrightarrow> (start, n) \<in> (parent_rel (pool s))\<^sup>+))
       \<and> (\<exists>path. get_path a qry hs = Some (Inr path))"
proof (cases "generate_endpoints a qry")
  case (Inl e)
  with assms show ?thesis
    by (simp add: search_run_def)
next
  case (Inr r)
  show ?thesis
  proof (cases r)
    case None
    with assms Inr have "s = cleanup a hs" "res = None"
      by (simp_all add: search_run_def Let_def)
    with Inr None assms show ?thesis
      by (simp add: parent_rel_cleanup get_path_def)
  next
    case (Some r2)
    obtain inst start where r2: "r2 = (inst, start)" by (cases r2)
    with Inr Some have ge: "generate_endpoints a qry = Inr (Some (inst, start))"
      by simp
    note ok = search_run_parents_ok [OF assms ge]
    have any: "costs_in a (\<lambda>c. True)"
      by (simp add: costs_in_def)
    from ok [OF any, of "\<lambda>g. True"] obtain t
      where inv: "parents_ok (\<lambda>c. True) (\<lambda>g. True) start t s" by auto
    have p1: "wf (parent_rel (pool s))"
      using inv by (rule parents_ok_wf)
    have p2: "\<forall>q n. (q, n) \<in> parent_rel (pool s) \<longrightarrow> q < length (pool s) \<and> get_expanded (pool s ! q)"
      using inv by (simp add: parents_ok_def)
    have p3: "\<forall>q n. (q, n) \<in> parent_rel (pool s) \<longrightarrow>
               (\<exists>c. P c \<and> get_g (pool s ! n) = dadd (get_g (pool s ! q)) c)"
      if "costs_in a P"
    proof -
      from ok [OF that, of "\<lambda>g. True"] obtain t'
        where "parents_ok P (\<lambda>g. True) start t' s" by auto
      then show ?thesis
        by (simp add: parents_ok_def)
    qed
    have p4: "\<forall>q n. (q, n) \<in> parent_rel (pool s) \<longrightarrow> dle (get_g (pool s ! q)) (get_g (pool s ! n))"
      if "costs_in a (\<lambda>c. dle (Finite 0) c)"
    proof -
      have "\<forall>g c. g_ok g \<longrightarrow> dle (Finite 0) c \<longrightarrow> g_ok (dadd g c)"
        using dadd_nonneg by blast
      from ok [OF that g_ok_0 this] obtain t'
        where inv': "parents_ok (\<lambda>c. dle (Finite 0) c) g_ok start t' s" ..
      show ?thesis
      proof (intro allI impI)
        fix q n assume qn: "(q, n) \<in> parent_rel (pool s)"
        with inv' obtain c where q: "q < length (pool s)" "get_expanded (pool s ! q)"
          and c: "dle (Finite 0) c" "get_g (pool s ! n) = dadd (get_g (pool s ! q)) c"
          unfolding parents_ok_def by blast
        from inv' q have "g_ok (get_g (pool s ! q))"
          by (simp add: parents_ok_def)
        from dadd_nonneg [OF this c(1)] c(2)
        show "dle (get_g (pool s ! q)) (get_g (pool s ! n))"
          by simp
      qed
    qed
    have p5: "get_parent (pool s ! start) = None"
      using inv by (simp add: parents_ok_def)
    have p6: "\<forall>q n. (q, n) \<in> parent_rel (pool s) \<longrightarrow> (start, n) \<in> (parent_rel (pool s))\<^sup>+"
      using parents_ok_rooted [OF inv] by blast
    have p7: "\<exists>path. get_path a qry hs = Some (Inr path)"
      using get_path_returns [OF assms] by blast
    from p1 p2 p3 p4 p5 p6 p7 ge show ?thesis
      by simp
  qed
qed

theorem search_parent_structure_witness:
  "search_run (ex_astar 4294967295) (ex_query 0 2) ()
     = Inr (Some 2, target_found,
            \<lparr>pool = [\<lparr>get_id = 0, get_g = Finite 0, get_f = Finite 0, get_parent = None,
                       get_expanded = True, get_search_id = 1\<rparr>,
                     \<lparr>get_id = 1, get_g = Finite 1, get_f = Finite 1, get_parent = Some 0,
                       get_expanded = True, get_search_id = 1\<rparr>,
                     \<lparr>get_id = 2, get_g = Finite 2, get_f = Finite 2, get_parent = Some 1,
                       get_expanded = False, get_search_id = 1\<rparr>,
                     fresh_node 3],
             open_list = [2], nodes_expanded = 2, nodes_generated = 2, nodes_touched = 5,
             heap_ops = 4, hook_state = ()\<rparr>)
   \<and> costs_in (ex_astar 4294967295) (\<lambda>c. dle (Finite 0) c)
   \<and> wf (parent_rel
        [\<lparr>get_id = 0, get_g = Finite 0, get_f = Finite 0, get_parent = None,
           get_expanded = True, get_search_id = 1\<rparr>,
         \<lparr>get_id = 1, get_g = Finite 1, get_f = Finite 1, get_parent = Some 0,
           get_expanded = True, get_search_id = 1\<rparr>,
         \<lparr>get_id = 2, get_g = Finite 2, get_f = Finite 2, get_parent = Some 1,
           get_expanded = False, get_search_id = 1\<rparr>,
         fresh_node 3])
   \<and> get_path (ex_astar 4294967295) (ex_query 0 2) () = Some (Inr [0, 1, 2])"
proof -
  let ?pool = "[\<lparr>get_id = 0, get_g = Finite 0, get_f = Finite 0, get_parent = None,
                       get_expanded = True, get_search_id = 1\<rparr>,
                     \<lparr>get_id = 1, get_g = Finite 1, get_f = Finite 1, get_parent = Some 0,
                       get_expanded = True, get_search_id = 1\<rparr>,
                     \<lparr>get_id = 2, get_g = Finite 2, get_f = Finite 2, get_parent = Some 1,
                       get_expanded = False, get_search_id = 1\<rparr>,
                     fresh_node 3]"
  let ?s = "\<lparr>pool = ?pool,
             open_list = [2], nodes_expanded = 2, nodes_generated = 2, nodes_touched = 5,
             heap_ops = 4, hook_state = ()\<rparr>"
  have run: "search_run (ex_astar 4294967295) (ex_query 0 2) () = Inr (Some 2, target_found, ?s)"
    by (simp add: ex_run_simps)
  note str = search_parent_structure [OF run, of "\<lambda>c. dle (Finite 0) c"]
  from str have "wf (parent_rel (pool ?s))"
    by (rule conjunct1)
  then have w: "wf (parent_rel ?pool)"
    by simp
  have path: "get_path (ex_astar 4294967295) (ex_query 0 2) () = Some (Inr [0, 1, 2])"
    unfolding get_path_def run by (simp add: follow_parents.simps)
  from run ex_costs_nonneg w path show ?thesis
    by (simp only: simp_thms)
qed

section \<open>The search engine: what the caller can tell apart\<close>

text \<open>
  Claim C5 as stated fails: a search that exhausts the frontier (from node 0 to the
  isolated node 3) and a search stopped by the expansion cutoff (from node 0 to node 2
  with at most one expansion, a target the unbounded search reaches) return the same
  value, the null pointer, and the same empty path.
\<close>

theorem search_no_path_and_cutoff_alike:
  "search (ex_astar 4294967295) (ex_query 0 3) () = Inr None
   \<and> search_exit (ex_astar 4294967295) (ex_query 0 3) () = Inr frontier_exhausted
   \<and> get_path (ex_astar 4294967295) (ex_query 0 3) () = Some (Inr [])
   \<and> search (ex_astar 1) (ex_query 0 2) () = Inr None
   \<and> search_exit (ex_astar 1) (ex_query 0 2) () = Inr exp_cutoff_reached
   \<and> get_path (ex_astar 1) (ex_query 0 2) () = Some (Inr [])
   \<and> search (ex_astar 4294967295) (ex_query 0 2) () = Inr (Some 2)"
  by (simp add: ex_run_simps)

text \<open>
  Claim C5, as the code has it. The value returned tells a found path from the rest: it
  is a node exactly when the search ended at the goal test, and then \<open>get_path\<close> gives a
  path that is not empty; when the search ended in any other way (frontier exhausted,
  either cutoff, or no start id) it is the null pointer and \<open>get_path\<close> gives the empty
  path, whichever way it was.
\<close>

theorem search_returns_target_or_null:
  assumes "search_run a q hs = Inr (res, why, s)"
  shows "search a q hs = Inr res
       \<and> (res \<noteq> None) = (why = target_found)
       \<and> (why \<noteq> target_found \<longrightarrow> res = None \<and> get_path a q hs = Some (Inr []))
       \<and> (why = target_found \<longrightarrow> (\<exists>path. get_path a q hs = Some (Inr path) \<and> path \<noteq> []))"
proof -
  note r = search_run_result [OF assms]
  have "search a q hs = Inr res"
    using assms by (simp add: search_def)
  moreover have "res = None \<and> get_path a q hs = Some (Inr [])" if "why \<noteq> target_found"
    using that r assms by (simp add: get_path_def)
  moreover have "\<exists>path. get_path a q hs = Some (Inr path) \<and> path \<noteq> []" if "why = target_found"
    using that r get_path_returns [OF assms] by auto
  ultimately show ?thesis
    using r by blast
qed

theorem search_returns_target_or_null_witness:
  "search_run (ex_astar 0) (ex_query 0 2) ()
     = Inr (None, exp_cutoff_reached,
            \<lparr>pool = [\<lparr>get_id = 0, get_g = Finite 0, get_f = Finite 0, get_parent = None, get_expanded = False,
                       get_search_id = 1\<rparr>, fresh_node 1, fresh_node 2, fresh_node 3],
             open_list = [0], nodes_expanded = 0, nodes_generated = 0, nodes_touched = 1,
             heap_ops = 0, hook_state = ()\<rparr>)
   \<and> get_path (ex_astar 0) (ex_query 0 2) () = Some (Inr [])
   \<and> search (ex_astar 4294967295) (ex_query 0 2) () = Inr (Some 2)
   \<and> search_exit (ex_astar 4294967295) (ex_query 0 2) () = Inr target_found
   \<and> get_path (ex_astar 4294967295) (ex_query 0 2) () = Some (Inr [0, 1, 2])"
proof -
  have run: "search_run (ex_astar 0) (ex_query 0 2) ()
     = Inr (None, exp_cutoff_reached,
            \<lparr>pool = [\<lparr>get_id = 0, get_g = Finite 0, get_f = Finite 0, get_parent = None, get_expanded = False,
                       get_search_id = 1\<rparr>, fresh_node 1, fresh_node 2, fresh_node 3],
             open_list = [0], nodes_expanded = 0, nodes_generated = 0, nodes_touched = 1,
             heap_ops = 0, hook_state = ()\<rparr>)"
    by (simp add: ex_run_simps)
  have found: "search (ex_astar 4294967295) (ex_query 0 2) () = Inr (Some 2)"
    "search_exit (ex_astar 4294967295) (ex_query 0 2) () = Inr target_found"
    by (simp_all add: ex_run_simps)
  have run2: "search_run (ex_astar 4294967295) (ex_query 0 2) ()
     = Inr (Some 2, target_found,
            \<lparr>pool = [\<lparr>get_id = 0, get_g = Finite 0, get_f = Finite 0, get_parent = None,
                       get_expanded = True, get_search_id = 1\<rparr>,
                     \<lparr>get_id = 1, get_g = Finite 1, get_f = Finite 1, get_parent = Some 0,
                       get_expanded = True, get_search_id = 1\<rparr>,
                     \<lparr>get_id = 2, get_g = Finite 2, get_f = Finite 2, get_parent = Some 1,
                       get_expanded = False, get_search_id = 1\<rparr>,
                     fresh_node 3],
             open_list = [2], nodes_expanded = 2, nodes_generated = 2, nodes_touched = 5,
             heap_ops = 4, hook_state = ()\<rparr>)"
    by (simp add: ex_run_simps)
  have path: "get_path (ex_astar 4294967295) (ex_query 0 2) () = Some (Inr [0, 1, 2])"
    unfolding get_path_def run2 by (simp add: follow_parents.simps)
  from search_returns_target_or_null [OF run] run found path show ?thesis
    by simp
qed

section \<open>Stage D: what an up edge is labelled with\<close>








lemmas ex_label_simps =
  compute_labels_def compute_down_labels_def labelling_init_def ex_labelling_input_def
  ex_label_1_def ex_label_2_def down_dfs_label_init_def range_init_def bbox_init_def
  grow_label_def range_grow_def bbox_grow_def merge_def range_merge_def bbox_merge_def
  INT32_MAX_def INT32_MIN_def Let_def upt_rec

lemma ex_compute_down_labels:
  "compute_down_labels 3 ex_labelling_input [0, 1, 2] =
     Some (Inr \<lparr>dfs_order = [INT32_MAX, 0, 1],
                lab = [[down_dfs_label_init 1, down_dfs_label_init 1], [], [ex_label_1]],
                node_labels = [down_dfs_label_init 1, ex_label_1, ex_label_2],
                dfs_id = 2,
                up_apex = [INT32_MAX, INT32_MAX, INT32_MAX]\<rparr>)"
  by (simp add: ex_label_simps numeral_3_eq_3)



section \<open>Stage E: what the refinement pass does to the labels\<close>
















end
